theory Spec2Isabelle
  imports Complex_Main "HOL-Library.Multiset"
begin

section \<open>The quadtree of \<^verbatim>\<open>src/quadtree.js\<close>\<close>

text \<open>
  The program is a quadtree over axis-aligned rectangles: class \<^verbatim>\<open>Node\<close> with the methods
  \<^verbatim>\<open>retrieve\<close>, \<^verbatim>\<open>insert\<close>, \<^verbatim>\<open>findInsertNode\<close>, \<^verbatim>\<open>findOverlappingNodes\<close>, \<^verbatim>\<open>divide\<close> and
  \<^verbatim>\<open>clear\<close>, and the facade class \<^verbatim>\<open>QUAD\<close> that owns the root node.

  Conventions of the embedding.
  \<^item> Coordinates and extents (\<^verbatim>\<open>x\<close>, \<^verbatim>\<open>y\<close>, \<^verbatim>\<open>w\<close>, \<^verbatim>\<open>h\<close>) are JavaScript numbers; they are
    modelled as \<open>real\<close>, so \<^verbatim>\<open>this.w / 2\<close> is exact halving. Rounding, infinities and NaN
    are outside the model. The theorems about the classifiers only compare numbers and
    use that \<open>x \<le> x + w\<close> when \<open>0 \<le> w\<close>, which rounding preserves.
  \<^item> \<^verbatim>\<open>depth\<close>, \<^verbatim>\<open>maxDepth\<close> and \<^verbatim>\<open>maxChildren\<close> are counts and are modelled as \<open>nat\<close>.
  \<^item> Objects are mutated in place by the source; every method becomes a function from
    the state of \<^verbatim>\<open>this\<close> before the call to its state after the call.
  \<^item> \<^verbatim>\<open>this.nodes[i]\<close> is \<^verbatim>\<open>undefined\<close> when \<open>i\<close> is out of range and calling a method
    on it throws a TypeError; a method that can throw returns an \<open>option\<close>, and
    \<open>None\<close> stands for the thrown TypeError.
  \<^item> A callback is a function that transforms the caller's own state \<open>'s\<close>.
\<close>

subsection \<open>Items and nodes\<close>

text \<open>
  An item is any object with the numeric fields \<^verbatim>\<open>x\<close>, \<^verbatim>\<open>y\<close>, \<^verbatim>\<open>w\<close>, \<^verbatim>\<open>h\<close>. The record is
  extensible: whatever else the caller's object carries lives in the \<open>more\<close> part of
  \<open>'a item_scheme\<close>.
\<close>

record item =
  item_x :: real
  item_y :: real
  item_w :: real
  item_h :: real

text \<open>
  The fields of class \<^verbatim>\<open>Node\<close>, in the order its constructor assigns them. The type
  parameter is the type of the stored items.
\<close>

datatype 'i node = Node
  (items: "'i list")
  (nodes: "'i node list")
  (maxChildren: nat)
  (maxDepth: nat)
  (node_x: real)
  (node_y: real)
  (node_w: real)
  (node_h: real)
  (depth: nat)

definition TOP_LEFT :: nat where "TOP_LEFT = 0"

definition TOP_RIGHT :: nat where "TOP_RIGHT = 1"

definition BOTTOM_LEFT :: nat where "BOTTOM_LEFT = 2"

definition BOTTOM_RIGHT :: nat where "BOTTOM_RIGHT = 3"

definition PARENT :: nat where "PARENT = 4"

text \<open>\<^verbatim>\<open>new Node(x, y, w, h, depth, maxChildren, maxDepth)\<close>: no items, no subnodes.\<close>

definition new_Node :: "real \<Rightarrow> real \<Rightarrow> real \<Rightarrow> real \<Rightarrow> nat \<Rightarrow> nat \<Rightarrow> nat \<Rightarrow> 'i node" where
  "new_Node x y w h d mc md = Node [] [] mc md x y w h d"

text \<open>Assignments to \<^verbatim>\<open>this.items\<close> and \<^verbatim>\<open>this.nodes\<close>; every other field is kept.\<close>

definition set_items :: "'i node \<Rightarrow> 'i list \<Rightarrow> 'i node" where
  "set_items this its =
     Node its (nodes this) (maxChildren this) (maxDepth this)
       (node_x this) (node_y this) (node_w this) (node_h this) (depth this)"

definition set_nodes :: "'i node \<Rightarrow> 'i node list \<Rightarrow> 'i node" where
  "set_nodes this ns =
     Node (items this) ns (maxChildren this) (maxDepth this)
       (node_x this) (node_y this) (node_w this) (node_h this) (depth this)"

subsection \<open>The two quadrant classifiers\<close>

definition findInsertNode :: "'i node \<Rightarrow> 'a item_scheme \<Rightarrow> nat" where
  "findInsertNode this item =
     (if item_x item + item_w item < node_x this + (node_w this / 2) then
        (if item_y item + item_h item < node_y this + (node_h this / 2) then TOP_LEFT
         else if item_y item \<ge> node_y this + (node_h this / 2) then BOTTOM_LEFT
         else PARENT)
      else if item_x item \<ge> node_x this + (node_w this / 2) then
        (if item_y item + item_h item < node_y this + (node_h this / 2) then TOP_RIGHT
         else if item_y item \<ge> node_y this + (node_h this / 2) then BOTTOM_RIGHT
         else PARENT)
      else PARENT)"

text \<open>
  \<^verbatim>\<open>findOverlappingNodes(item, callback)\<close> calls \<^verbatim>\<open>callback(dir)\<close> for every region the
  item overlaps. The tests read only the item and the geometry of \<^verbatim>\<open>this\<close>, which no
  method assigns after construction, so the calls are modelled by the list of their
  arguments, in the order the source makes them: the two left regions first, then the
  two right ones.
\<close>

definition findOverlappingNodes :: "'i node \<Rightarrow> 'a item_scheme \<Rightarrow> nat list" where
  "findOverlappingNodes this item =
     (if item_x item < node_x this + (node_w this / 2) then
        (if item_y item < node_y this + (node_h this / 2) then [TOP_LEFT] else []) @
        (if item_y item + item_h item \<ge> node_y this + node_h this / 2 then [BOTTOM_LEFT] else [])
      else []) @
     (if item_x item + item_w item \<ge> node_x this + (node_w this / 2) then
        (if item_y item < node_y this + (node_h this / 2) then [TOP_RIGHT] else []) @
        (if item_y item + item_h item \<ge> node_y this + node_h this / 2 then [BOTTOM_RIGHT] else [])
      else [])"

subsection \<open>Insertion and subdivision\<close>

text \<open>
  The first half of \<^verbatim>\<open>divide\<close>: the four \<^verbatim>\<open>this.nodes.push(new Node(...))\<close>, top left, top
  right, bottom left, bottom right.
\<close>

definition divide_nodes :: "'i node \<Rightarrow> 'i node" where
  "divide_nodes this =
     (let childrenDepth = depth this + 1;
          width = node_w this / 2;
          height = node_h this / 2
      in set_nodes this (nodes this @
           [new_Node (node_x this) (node_y this) width height childrenDepth
              (maxChildren this) (maxDepth this),
            new_Node (node_x this + width) (node_y this) width height childrenDepth
              (maxChildren this) (maxDepth this),
            new_Node (node_x this) (node_y this + height) width height childrenDepth
              (maxChildren this) (maxDepth this),
            new_Node (node_x this + width) (node_y this + height) width height childrenDepth
              (maxChildren this) (maxDepth this)]))"

text \<open>
  \<^verbatim>\<open>insert\<close>, \<^verbatim>\<open>divide\<close> and the loop \<^verbatim>\<open>oldChildren.forEach(el => this.insert(el))\<close> call each
  other. \<open>insert_each\<close> is that loop: it threads the state of \<^verbatim>\<open>this\<close> through the calls,
  and an exception thrown by one call ends it.
\<close>

function Node_insert :: "'a item_scheme node \<Rightarrow> 'a item_scheme \<Rightarrow> 'a item_scheme node option"
  and Node_divide :: "'a item_scheme node \<Rightarrow> 'a item_scheme node option"
  and insert_each :: "'a item_scheme node \<Rightarrow> 'a item_scheme list \<Rightarrow> 'a item_scheme node option"
where
  "Node_insert this item =
     (if nodes this \<noteq> [] then
        (let i = findInsertNode this item in
         if i = PARENT then Some (set_items this (items this @ [item]))
         else if i < length (nodes this) then
           (case Node_insert (nodes this ! i) item of
              None \<Rightarrow> None
            | Some c \<Rightarrow> Some (set_nodes this ((nodes this)[i := c])))
         else None)
      else
        (let this1 = set_items this (items this @ [item]) in
         if length (items this1) > maxChildren this1 \<and> depth this1 < maxDepth this1
         then Node_divide this1
         else Some this1))"
| "Node_divide this =
     (let this1 = divide_nodes this;
          oldChildren = items this1;
          this2 = set_items this1 []
      in insert_each this2 oldChildren)"
| "insert_each this [] = Some this"
| "insert_each this (el # els) =
     (case Node_insert this el of
        None \<Rightarrow> None
      | Some this' \<Rightarrow> insert_each this' els)"
  by pat_completeness auto

text \<open>
  Termination. The calls are nested (the loop inserts into the result of the previous
  insertion), so the proof needs a bound that insertion does not raise: \<open>rank\<close> counts,
  for a leaf, four times the subdivisions still allowed below it, and for an inner node
  one more than the largest rank of a subnode.
\<close>

lemma set_items_sel [simp]:
  "items (set_items n its) = its"
  "nodes (set_items n its) = nodes n"
  "maxChildren (set_items n its) = maxChildren n"
  "maxDepth (set_items n its) = maxDepth n"
  "node_x (set_items n its) = node_x n"
  "node_y (set_items n its) = node_y n"
  "node_w (set_items n its) = node_w n"
  "node_h (set_items n its) = node_h n"
  "depth (set_items n its) = depth n"
  by (simp_all add: set_items_def)

lemma set_nodes_sel [simp]:
  "items (set_nodes n ns) = items n"
  "nodes (set_nodes n ns) = ns"
  "maxChildren (set_nodes n ns) = maxChildren n"
  "maxDepth (set_nodes n ns) = maxDepth n"
  "node_x (set_nodes n ns) = node_x n"
  "node_y (set_nodes n ns) = node_y n"
  "node_w (set_nodes n ns) = node_w n"
  "node_h (set_nodes n ns) = node_h n"
  "depth (set_nodes n ns) = depth n"
  by (simp_all add: set_nodes_def)

lemma set_nodes_same [simp]: "set_nodes n (nodes n) = n"
  by (cases n) (simp add: set_nodes_def)

lemma set_items_same [simp]: "set_items n (items n) = n"
  by (cases n) (simp add: set_items_def)

fun rank :: "'i node \<Rightarrow> nat" where
  "rank (Node its ns mc md x y w h d) =
     (if ns = [] then 4 * (md - d) else Suc (foldr max (map rank ns) 0))"

lemma rank_child_le: "c \<in> set ns \<Longrightarrow> rank c \<le> foldr max (map rank ns) 0"
  by (induction ns) auto

lemma rank_update_le:
  "i < length ns \<Longrightarrow> rank c \<le> rank (ns ! i) \<Longrightarrow>
   foldr max (map rank (ns[i := c])) 0 \<le> foldr max (map rank ns) 0"
proof (induction ns arbitrary: i)
  case Nil
  then show ?case by simp
next
  case (Cons a ns)
  show ?case
  proof (cases i)
    case 0
    with Cons.prems show ?thesis by (simp add: max.coboundedI1 max.coboundedI2)
  next
    case (Suc j)
    with Cons have "foldr max (map rank (ns[j := c])) 0 \<le> foldr max (map rank ns) 0"
      by simp
    with Suc show ?thesis by (simp add: max.coboundedI2)
  qed
qed

lemma rank_set_items [simp]: "rank (set_items n its) = rank n"
  by (cases n) (simp add: set_items_def)

lemma rank_set_nodes:
  "rank (set_nodes n ns) =
     (if ns = [] then 4 * (maxDepth n - depth n) else Suc (foldr max (map rank ns) 0))"
  by (cases n) (simp add: set_nodes_def)

lemma rank_internal: "nodes n \<noteq> [] \<Longrightarrow> rank n = Suc (foldr max (map rank (nodes n)) 0)"
  by (cases n) simp

lemma rank_divide_nodes:
  "nodes n = [] \<Longrightarrow> depth n < maxDepth n \<Longrightarrow> rank (divide_nodes n) + 3 = rank n"
  by (cases n) (simp add: divide_nodes_def set_nodes_def new_Node_def Let_def)

lemma rank_mono_dom:
  "Node_insert_Node_divide_insert_each_dom (Inl (n, it)) \<Longrightarrow>
     Node_insert n it = Some n' \<Longrightarrow> rank n' \<le> rank n"
  "Node_insert_Node_divide_insert_each_dom (Inr (Inl n)) \<Longrightarrow>
     Node_divide n = Some n' \<Longrightarrow> rank n' \<le> rank (divide_nodes n)"
  "Node_insert_Node_divide_insert_each_dom (Inr (Inr (n, els))) \<Longrightarrow>
     insert_each n els = Some n' \<Longrightarrow> rank n' \<le> rank n"
proof (induction n it and n and n els arbitrary: n' and n' and n'
    rule: Node_insert_Node_divide_insert_each.pinduct)
  case (1 this item)
  show ?case
  proof (cases "nodes this = []")
    case True
    show ?thesis
    proof (cases "maxChildren this < Suc (length (items this)) \<and> depth this < maxDepth this")
      case False
      with True "1.prems" "1.hyps" show ?thesis
        by (auto simp: Node_insert.psimps Let_def)
    next
      case d: True
      let ?t = "set_items this (items this @ [item])"
      from True d "1.prems" "1.hyps" have e: "Node_divide ?t = Some n'"
        by (auto simp: Node_insert.psimps Let_def)
      have "rank n' \<le> rank (divide_nodes ?t)"
        using "1.IH"(2)[OF _ refl _ e] True d by simp
      moreover have "rank (divide_nodes ?t) + 3 = rank ?t"
        using True d by (intro rank_divide_nodes) simp_all
      ultimately show ?thesis by simp
    qed
  next
    case False
    let ?i = "findInsertNode this item"
    show ?thesis
    proof (cases "?i = PARENT")
      case True
      with False "1.prems" "1.hyps" show ?thesis
        by (auto simp: Node_insert.psimps Let_def)
    next
      case np: False
      with False "1.prems" "1.hyps" obtain c where
        lt: "?i < length (nodes this)" and
        c: "Node_insert (nodes this ! ?i) item = Some c" and
        n': "n' = set_nodes this ((nodes this)[?i := c])"
        by (auto simp: Node_insert.psimps Let_def split: if_splits option.splits)
      have "rank c \<le> rank (nodes this ! ?i)"
        using "1.IH"(1)[OF False refl np lt c] .
      then show ?thesis
        using False lt by (simp add: n' rank_set_nodes rank_internal rank_update_le)
    qed
  qed
next
  case (2 this)
  then show ?case
    by (simp add: Node_divide.psimps Let_def)
next
  case (3 this)
  then show ?case by (simp add: insert_each.psimps)
next
  case (4 this el els)
  then show ?case
    by (auto simp: insert_each.psimps split: option.splits intro: order_trans)
qed

termination Node_insert
proof (relation "measures
    [\<lambda>a. case a of Inl (n, it) \<Rightarrow> rank n
                | Inr (Inl n) \<Rightarrow> rank (divide_nodes n) + 2
                | Inr (Inr (n, els)) \<Rightarrow> rank n + 1,
     \<lambda>a. case a of Inr (Inr (n, els)) \<Rightarrow> length els | _ \<Rightarrow> 0]", goal_cases)
  case 1
  show ?case by simp
next
  case (2 this item x)
  then have "rank (nodes this ! x) \<le> foldr max (map rank (nodes this)) 0"
    by (intro rank_child_le) simp
  with 2 show ?case by (simp add: rank_internal)
next
  case (3 this item x)
  then have "rank (divide_nodes x) + 3 = rank x"
    by (intro rank_divide_nodes) simp_all
  with 3 show ?case by simp
next
  case (4 this x xa xb)
  then show ?case by simp
next
  case (5 this el els)
  then show ?case by simp
next
  case (6 this el els x2)
  then show ?case using rank_mono_dom(1)[of this el x2] by auto
qed

declare Node_insert.simps [simp del] Node_divide.simps [simp del]

subsection \<open>Retrieval\<close>

text \<open>
  \<^verbatim>\<open>retrieve(item, callback, instance)\<close> calls the callback on every item of this node,
  then retrieves from every overlapping subnode. \<^verbatim>\<open>instance\<close> only chooses the receiver
  of the callback. The method is embedded as the source is written, a call on the
  object \<^verbatim>\<open>this\<close> and on the objects in \<^verbatim>\<open>this.nodes\<close>: it returns the state of the node
  after the call together with the caller's state, and \<open>retrieve_each\<close> puts the state
  every subnode is left in back into \<^verbatim>\<open>this.nodes\<close>.
\<close>

function Node_retrieve ::
    "'i node \<Rightarrow> 'a item_scheme \<Rightarrow> ('i \<Rightarrow> 's \<Rightarrow> 's) \<Rightarrow> 's \<Rightarrow> ('i node \<times> 's) option"
  and retrieve_each ::
    "'i node \<Rightarrow> nat list \<Rightarrow> 'a item_scheme \<Rightarrow> ('i \<Rightarrow> 's \<Rightarrow> 's) \<Rightarrow> 's \<Rightarrow> ('i node \<times> 's) option"
where
  "Node_retrieve this item callback s =
     (let s1 = fold callback (items this) s in
      if nodes this \<noteq> []
      then retrieve_each this (findOverlappingNodes this item) item callback s1
      else Some (this, s1))"
| "retrieve_each this [] item callback s = Some (this, s)"
| "retrieve_each this (dir # dirs) item callback s =
     (if dir < length (nodes this) then
        (case Node_retrieve (nodes this ! dir) item callback s of
           None \<Rightarrow> None
         | Some (c, s') \<Rightarrow>
             retrieve_each (set_nodes this ((nodes this)[dir := c])) dirs item callback s')
      else None)"
  by pat_completeness auto

lemma retrieve_frame_dom:
  "Node_retrieve_retrieve_each_dom (Inl (n, q, cb, s)) \<Longrightarrow>
     Node_retrieve n q cb s = Some (n', s') \<Longrightarrow> n' = n"
  "Node_retrieve_retrieve_each_dom (Inr (n, ds, q, cb, s)) \<Longrightarrow>
     retrieve_each n ds q cb s = Some (n', s') \<Longrightarrow> n' = n"
proof (induction n q cb s and n ds q cb s arbitrary: n' s' and n' s'
    rule: Node_retrieve_retrieve_each.pinduct)
  case (1 this item callback s)
  then show ?case
    by (auto simp: Node_retrieve.psimps Let_def split: if_splits)
next
  case (2 this item callback s)
  then show ?case by (simp add: retrieve_each.psimps)
next
  case (3 this dir dirs item callback s)
  from "3.prems" "3.hyps" obtain c s1 where
    lt: "dir < length (nodes this)" and
    c: "Node_retrieve (nodes this ! dir) item callback s = Some (c, s1)" and
    r: "retrieve_each (set_nodes this ((nodes this)[dir := c])) dirs item callback s1
          = Some (n', s')"
    by (auto simp: retrieve_each.psimps split: if_splits option.splits)
  have "c = nodes this ! dir" using "3.IH"(1)[OF lt c] .
  then have e: "set_nodes this ((nodes this)[dir := c]) = this" by simp
  from "3.IH"(2)[OF lt c refl r] e show ?case by simp
qed

lemma size_child: "c \<in> set (nodes n) \<Longrightarrow> size c < size n"
proof (cases n)
  case (Node its ns mc md x y w h d)
  assume "c \<in> set (nodes n)"
  with Node have "size c \<le> size_list size ns"
    by (auto intro: size_list_estimation')
  with Node show ?thesis by simp
qed

termination Node_retrieve
proof (relation "measures
    [\<lambda>a. case a of Inl (n, q, cb, s) \<Rightarrow> size n | Inr (n, ds, q, cb, s) \<Rightarrow> size n,
     \<lambda>a. case a of Inl (n, q, cb, s) \<Rightarrow> 1 | Inr (n, ds, q, cb, s) \<Rightarrow> 0,
     \<lambda>a. case a of Inl (n, q, cb, s) \<Rightarrow> 0 | Inr (n, ds, q, cb, s) \<Rightarrow> length ds]",
    goal_cases)
  case 1
  show ?case by simp
next
  case (2 this item callback s x)
  then show ?case by simp
next
  case (3 this dir dirs item callback s)
  then show ?case by (simp add: size_child)
next
  case (4 this dir dirs item callback s x2 x y)
  then have "x = nodes this ! dir" using retrieve_frame_dom(1) by auto
  then show ?case by simp
qed

declare Node_retrieve.simps [simp del]

text \<open>
  The callback that records its calls: run from \<open>[]\<close>, the caller's state at the end
  is the sequence of items the callback was invoked on, in order.
\<close>

definition collect :: "'i \<Rightarrow> 'i list \<Rightarrow> 'i list" where
  "collect el acc = acc @ [el]"

subsection \<open>Clearing\<close>

text \<open>
  \<^verbatim>\<open>clear()\<close> clears every subnode, then truncates \<^verbatim>\<open>this.items\<close> and \<^verbatim>\<open>this.nodes\<close>. The
  subnodes are objects of their own and survive the truncation for whoever holds them;
  the second component lists every former descendant in the state \<^verbatim>\<open>clear\<close> leaves it in.
\<close>

fun Node_clear :: "'i node \<Rightarrow> 'i node \<times> 'i node list" where
  "Node_clear (Node its ns mc md x y w h d) =
     (let cleared = map Node_clear ns
      in (Node [] [] mc md x y w h d, concat (map (\<lambda>(c, ds). c # ds) cleared)))"

subsection \<open>The facade \<^verbatim>\<open>QUAD\<close>\<close>

text \<open>
  The argument object of the constructor: \<^verbatim>\<open>maxChildren\<close> and \<^verbatim>\<open>maxDepth\<close> are optional
  (\<open>None\<close> when the caller omits them). \<^verbatim>\<open>v || d\<close> yields \<open>d\<close> when \<open>v\<close> is missing or falsy;
  the only falsy count is \<open>0\<close>.
\<close>

record args =
  args_x :: real
  args_y :: real
  args_w :: real
  args_h :: real
  args_maxChildren :: "nat option"
  args_maxDepth :: "nat option"

fun or_default :: "nat option \<Rightarrow> nat \<Rightarrow> nat" where
  "or_default None d = d"
| "or_default (Some v) d = (if v = 0 then d else v)"

record 'i QUAD =
  root :: "'i node"

text \<open>
  The constructor assigns to the object it is given (\<^verbatim>\<open>const args = _args\<close> is the same
  object), so it returns that object's state after the call beside the new index.
\<close>

definition new_QUAD :: "args \<Rightarrow> 'i QUAD \<times> args" where
  "new_QUAD args0 =
     (let args = args0;
          args = args\<lparr>args_maxChildren := Some (or_default (args_maxChildren args) 2)\<rparr>;
          args = args\<lparr>args_maxDepth := Some (or_default (args_maxDepth args) 4)\<rparr>
      in (\<lparr>root = new_Node (args_x args) (args_y args) (args_w args) (args_h args) 0
                    (or_default (args_maxChildren args) 2)
                    (or_default (args_maxDepth args) 4)\<rparr>,
          args))"

text \<open>\<^verbatim>\<open>QUAD.insert\<close> takes one item or an array of items (\<^verbatim>\<open>item instanceof Array\<close>).\<close>

datatype 'i insert_arg = Item 'i | Items "'i list"

definition QUAD_insert ::
    "'a item_scheme QUAD \<Rightarrow> 'a item_scheme insert_arg \<Rightarrow> 'a item_scheme QUAD option" where
  "QUAD_insert this item =
     (case item of
        Items its \<Rightarrow> map_option (\<lambda>r. this\<lparr>root := r\<rparr>) (insert_each (root this) its)
      | Item it \<Rightarrow> map_option (\<lambda>r. this\<lparr>root := r\<rparr>) (Node_insert (root this) it))"

definition QUAD_retrieve ::
    "'i QUAD \<Rightarrow> 'a item_scheme \<Rightarrow> ('i \<Rightarrow> 's \<Rightarrow> 's) \<Rightarrow> 's \<Rightarrow> ('i QUAD \<times> 's) option" where
  "QUAD_retrieve this selector callback s =
     map_option (\<lambda>(r, s'). (this\<lparr>root := r\<rparr>, s'))
       (Node_retrieve (root this) selector callback s)"

definition QUAD_clear :: "'i QUAD \<Rightarrow> 'i QUAD \<times> 'i node list" where
  "QUAD_clear this = (case Node_clear (root this) of (r, ds) \<Rightarrow> (this\<lparr>root := r\<rparr>, ds))"

section \<open>Notions used in the statements\<close>

text \<open>
  A node is well formed when it has no subnodes or exactly four, and so has every node
  below it. The constructor builds such a node, and \<^verbatim>\<open>divide\<close>, called on a leaf only,
  pushes exactly four subnodes, so these are the trees the methods produce.
\<close>

fun wf_node :: "'i node \<Rightarrow> bool" where
  "wf_node (Node its ns mc md x y w h d) =
     ((ns = [] \<or> length ns = 4) \<and> (\<forall>c \<in> set ns. wf_node c))"

text \<open>
  \<open>same_frame n n'\<close>: the two node states agree on every field but \<^verbatim>\<open>items\<close> and \<^verbatim>\<open>nodes\<close>,
  that is on the box, the depth and the two limits.
\<close>

definition same_frame :: "'i node \<Rightarrow> 'i node \<Rightarrow> bool" where
  "same_frame n n' \<longleftrightarrow>
     maxChildren n' = maxChildren n \<and> maxDepth n' = maxDepth n \<and>
     node_x n' = node_x n \<and> node_y n' = node_y n \<and>
     node_w n' = node_w n \<and> node_h n' = node_h n \<and> depth n' = depth n"

text \<open>
  \<open>visit n q\<close> is the sequence of items \<^verbatim>\<open>retrieve\<close> passes to its callback on a
  well-formed tree: the node's own items, then, region by region in the order of
  \<open>findOverlappingNodes\<close>, what the subnode of that region passes. It is a device of the
  proofs; lemma \<open>retrieve_visit\<close> relates it to \<open>Node_retrieve\<close>.
\<close>

function visit :: "'i node \<Rightarrow> 'a item_scheme \<Rightarrow> 'i list" where
  "visit n q =
     items n @ concat (map (\<lambda>d. if d < length (nodes n) then visit (nodes n ! d) q else [])
                        (findOverlappingNodes n q))"
  by pat_completeness auto

termination
  by (relation "measure (\<lambda>(n, q). size n)") (auto simp: size_child)

declare visit.simps [simp del]

text \<open>
  \<open>retrieved n q\<close> is the sequence of items a \<^verbatim>\<open>retrieve\<close> with query \<open>q\<close> invokes its callback
  on, in order; \<open>None\<close> when the call throws.
\<close>

definition retrieved :: "'i node \<Rightarrow> 'a item_scheme \<Rightarrow> 'i list option" where
  "retrieved n q = map_option snd (Node_retrieve n q collect [])"

text \<open>
  The order a specification of \<^verbatim>\<open>retrieve\<close> may state: the node's own items, then, for
  the overlapping regions taken in the order \<open>order\<close>, what the subnode of each region
  yields.
\<close>

definition in_quadrant_order :: "nat list \<Rightarrow> 'i node \<Rightarrow> 'a item_scheme \<Rightarrow> 'i list" where
  "in_quadrant_order order n q =
     items n @
     (if nodes n \<noteq> [] then
        concat (map (\<lambda>d. case retrieved (nodes n ! d) q of Some r \<Rightarrow> r | None \<Rightarrow> [])
                 (filter (\<lambda>d. d \<in> set (findOverlappingNodes n q)) order))
      else [])"

text \<open>\<open>descendants n\<close> lists every node below \<open>n\<close>, depth first.\<close>

fun descendants :: "'i node \<Rightarrow> 'i node list" where
  "descendants (Node its ns mc md x y w h d) = concat (map (\<lambda>c. c # descendants c) ns)"

text \<open>\<open>all_items n\<close>: the items held by \<open>n\<close> and by every node below it.\<close>

fun all_items :: "'i node \<Rightarrow> 'i list" where
  "all_items (Node its ns mc md x y w h d) = its @ concat (map all_items ns)"

text \<open>\<open>every_node P n\<close>: \<open>P\<close> holds of \<open>n\<close> and of every node below it.\<close>

fun every_node :: "('i node \<Rightarrow> bool) \<Rightarrow> 'i node \<Rightarrow> bool" where
  "every_node P (Node its ns mc md x y w h d) =
     (P (Node its ns mc md x y w h d) \<and> (\<forall>c \<in> set ns. every_node P c))"

text \<open>\<open>at_most_depth d m\<close>: node \<open>m\<close> carries \<^verbatim>\<open>maxDepth = d\<close> and is not deeper than \<open>d\<close>.\<close>

definition at_most_depth :: "nat \<Rightarrow> 'i node \<Rightarrow> bool" where
  "at_most_depth d m \<longleftrightarrow> maxDepth m = d \<and> depth m \<le> d"

text \<open>
  \<open>item_in_box a q\<close>: item \<open>a\<close> has non-negative width and height and lies inside the box
  of \<open>q\<close>, its far edges \<open>x + w\<close> and \<open>y + h\<close> not beyond those of \<open>q\<close>.
\<close>

definition item_in_box :: "'a item_scheme \<Rightarrow> 'b item_scheme \<Rightarrow> bool" where
  "item_in_box a q \<longleftrightarrow>
     0 \<le> item_w a \<and> 0 \<le> item_h a \<and>
     item_x q \<le> item_x a \<and> item_x a + item_w a \<le> item_x q + item_w q \<and>
     item_y q \<le> item_y a \<and> item_y a + item_h a \<le> item_y q + item_h q"

text \<open>
  \<open>reaches q m\<close>: a query \<open>q\<close> enters every subnode of \<open>m\<close> that holds an item, itself or
  below.
\<close>

definition reaches :: "'b item_scheme \<Rightarrow> 'i node \<Rightarrow> bool" where
  "reaches q m \<longleftrightarrow>
     (\<forall>i < length (nodes m). all_items (nodes m ! i) \<noteq> [] \<longrightarrow>
         i \<in> set (findOverlappingNodes m q))"

text \<open>
  An item straddles a node when its box reaches from the left of the node's vertical
  midline to the midline or beyond, or from above the horizontal midline to that
  midline or beyond. These are exactly the items \<open>findInsertNode\<close> classifies \<^verbatim>\<open>PARENT\<close>
  (lemma \<open>straddles_parent\<close>).
\<close>

definition straddles :: "'i node \<Rightarrow> 'a item_scheme \<Rightarrow> bool" where
  "straddles n it \<longleftrightarrow>
     (item_x it < node_x n + node_w n / 2 \<and> node_x n + node_w n / 2 \<le> item_x it + item_w it) \<or>
     (item_y it < node_y n + node_h n / 2 \<and> node_y n + node_h n / 2 \<le> item_y it + item_h it)"

section \<open>Example items and trees\<close>

text \<open>
  A root over the box \<open>(0, 0, 100, 100)\<close> with \<^verbatim>\<open>maxChildren = 1\<close> and \<^verbatim>\<open>maxDepth = 4\<close>, one
  item in its bottom left region and one in its top right region: what two insertions
  into the empty root produce. \<open>ex_box\<close> is the box of the root, \<open>ex_mid\<close> an item that
  straddles its vertical midline.
\<close>

definition ex_bl :: item where
  "ex_bl = \<lparr>item_x = 10, item_y = 60, item_w = 5, item_h = 5\<rparr>"

definition ex_tr :: item where
  "ex_tr = \<lparr>item_x = 60, item_y = 10, item_w = 5, item_h = 5\<rparr>"

definition ex_tree :: "item node" where
  "ex_tree = Node []
     [Node [] [] 1 4 0 0 50 50 1,
      Node [ex_tr] [] 1 4 50 0 50 50 1,
      Node [ex_bl] [] 1 4 0 50 50 50 1,
      Node [] [] 1 4 50 50 50 50 1] 1 4 0 0 100 100 0"

definition ex_box :: item where
  "ex_box = \<lparr>item_x = 0, item_y = 0, item_w = 100, item_h = 100\<rparr>"

definition ex_mid :: item where
  "ex_mid = \<lparr>item_x = 45, item_y = 10, item_w = 20, item_h = 5\<rparr>"

text \<open>
  The three items of the specification's first scenario, and the root over
  \<open>(0, 0, 100, 100)\<close> with \<^verbatim>\<open>maxChildren = 2\<close> and \<^verbatim>\<open>maxDepth = 4\<close> after they are inserted:
  the third insertion divides it.
\<close>

definition ex_a :: item where
  "ex_a = \<lparr>item_x = 0, item_y = 0, item_w = 10, item_h = 10\<rparr>"

definition ex_b :: item where
  "ex_b = \<lparr>item_x = 60, item_y = 60, item_w = 10, item_h = 10\<rparr>"

definition ex_c :: item where
  "ex_c = \<lparr>item_x = 5, item_y = 5, item_w = 5, item_h = 5\<rparr>"

definition ex_root3 :: "item node" where
  "ex_root3 = Node []
     [Node [ex_a, ex_c] [] 2 4 0 0 50 50 1,
      Node [] [] 2 4 50 0 50 50 1,
      Node [] [] 2 4 0 50 50 50 1,
      Node [ex_b] [] 2 4 50 50 50 50 1] 2 4 0 0 100 100 0"

text \<open>
  A root whose box has width 0, after two items that lie to its left are inserted; the
  second insertion divides it.
\<close>

definition ex_flat_root :: "item node" where
  "ex_flat_root = Node []
     [Node [\<lparr>item_x = -5, item_y = 10, item_w = 1, item_h = 1\<rparr>] [] 1 4 0 0 0 50 1,
      Node [] [] 1 4 0 0 0 50 1,
      Node [\<lparr>item_x = -5, item_y = 60, item_w = 1, item_h = 1\<rparr>] [] 1 4 0 50 0 50 1,
      Node [] [] 1 4 0 50 0 50 1] 1 4 0 0 0 100 0"

text \<open>
  The same root of width 0 after two items that lie inside its box are inserted; again
  the second insertion divides it.
\<close>

definition ex_flat_inside :: "item node" where
  "ex_flat_inside = Node []
     [Node [] [] 1 4 0 0 0 50 1,
      Node [\<lparr>item_x = 0, item_y = 10, item_w = 0, item_h = 1\<rparr>] [] 1 4 0 0 0 50 1,
      Node [] [] 1 4 0 50 0 50 1,
      Node [\<lparr>item_x = 0, item_y = 60, item_w = 0, item_h = 1\<rparr>] [] 1 4 0 50 0 50 1]
     1 4 0 0 0 100 0"

section \<open>Well-formed trees\<close>

text \<open>
  On a well-formed tree no method throws: \<open>insert_total\<close> shows that \<^verbatim>\<open>insert\<close>, \<^verbatim>\<open>divide\<close> (on a
  leaf) and the insertion loop return a well-formed tree with the same box, depth and
  limits, and that a node with subnodes keeps having subnodes.
\<close>

lemma wf_node_iff:
  "wf_node n \<longleftrightarrow> (nodes n = [] \<or> length (nodes n) = 4) \<and> (\<forall>c \<in> set (nodes n). wf_node c)"
  by (cases n) simp

lemma wf_node_set_items [simp]: "wf_node (set_items n its) = wf_node n"
  by (simp add: wf_node_iff[of "set_items n its"] wf_node_iff[of n])

lemma wf_node_set_nodes:
  "wf_node (set_nodes n ns) \<longleftrightarrow> (ns = [] \<or> length ns = 4) \<and> (\<forall>c \<in> set ns. wf_node c)"
  by (simp add: wf_node_iff[of "set_nodes n ns"])

lemma wf_node_new [simp]: "wf_node (new_Node x y w h d mc md)"
  by (simp add: new_Node_def)

lemma divide_nodes_sel [simp]:
  "items (divide_nodes n) = items n"
  "maxChildren (divide_nodes n) = maxChildren n"
  "maxDepth (divide_nodes n) = maxDepth n"
  "node_x (divide_nodes n) = node_x n"
  "node_y (divide_nodes n) = node_y n"
  "node_w (divide_nodes n) = node_w n"
  "node_h (divide_nodes n) = node_h n"
  "depth (divide_nodes n) = depth n"
  by (simp_all add: divide_nodes_def Let_def)

lemma divide_nodes_leaf:
  "nodes n = [] \<Longrightarrow> nodes (divide_nodes n) =
     [new_Node (node_x n) (node_y n) (node_w n / 2) (node_h n / 2) (depth n + 1)
        (maxChildren n) (maxDepth n),
      new_Node (node_x n + node_w n / 2) (node_y n) (node_w n / 2) (node_h n / 2) (depth n + 1)
        (maxChildren n) (maxDepth n),
      new_Node (node_x n) (node_y n + node_h n / 2) (node_w n / 2) (node_h n / 2) (depth n + 1)
        (maxChildren n) (maxDepth n),
      new_Node (node_x n + node_w n / 2) (node_y n + node_h n / 2) (node_w n / 2) (node_h n / 2)
        (depth n + 1) (maxChildren n) (maxDepth n)]"
  by (simp add: divide_nodes_def Let_def)

lemma wf_node_divide_nodes: "nodes n = [] \<Longrightarrow> wf_node (divide_nodes n)"
  by (simp add: wf_node_iff[of "divide_nodes n"] divide_nodes_leaf)

lemma findInsertNode_cases:
  "findInsertNode n it = PARENT \<or> findInsertNode n it < 4"
  by (simp add: findInsertNode_def TOP_LEFT_def TOP_RIGHT_def BOTTOM_LEFT_def BOTTOM_RIGHT_def)

lemma same_frame_refl [simp]: "same_frame n n"
  by (simp add: same_frame_def)

lemma same_frame_trans: "same_frame a b \<Longrightarrow> same_frame b c \<Longrightarrow> same_frame a c"
  by (simp add: same_frame_def)

lemma same_frame_simps [simp]:
  "same_frame n (set_items n its)"
  "same_frame n (set_nodes n ns)"
  "same_frame n (divide_nodes n)"
  "same_frame (set_items n its) m = same_frame n m"
  "same_frame (set_nodes n ns) m = same_frame n m"
  "same_frame (divide_nodes n) m = same_frame n m"
  by (simp_all add: same_frame_def)

lemma insert_total:
  "wf_node n \<longrightarrow> (\<exists>n'. Node_insert n it = Some n' \<and> wf_node n' \<and> same_frame n n' \<and>
      (nodes n \<noteq> [] \<longrightarrow> nodes n' \<noteq> []))"
  "wf_node n \<and> nodes n = [] \<longrightarrow>
     (\<exists>n'. Node_divide n = Some n' \<and> wf_node n' \<and> same_frame n n' \<and> nodes n' \<noteq> [])"
  "wf_node n \<longrightarrow> (\<exists>n'. insert_each n els = Some n' \<and> wf_node n' \<and> same_frame n n' \<and>
      (nodes n \<noteq> [] \<longrightarrow> nodes n' \<noteq> []))"
proof (induction n it and n and n els rule: Node_insert_Node_divide_insert_each.induct)
  case (1 this item)
  show ?case
  proof
    assume wf: "wf_node this"
    show "\<exists>n'. Node_insert this item = Some n' \<and> wf_node n' \<and> same_frame this n' \<and>
      (nodes this \<noteq> [] \<longrightarrow> nodes n' \<noteq> [])"
    proof (cases "nodes this = []")
      case True
      let ?t = "set_items this (items this @ [item])"
      show ?thesis
      proof (cases "maxChildren ?t < length (items ?t) \<and> depth ?t < maxDepth ?t")
        case d: True
        have "wf_node ?t \<and> nodes ?t = []" using wf True by simp
        with "1.IH"(2)[OF _ refl d] True obtain n' where
          "Node_divide ?t = Some n'" "wf_node n'" "same_frame ?t n'" "nodes n' \<noteq> []"
          by auto
        with True d show ?thesis by (simp add: Node_insert.simps[of this item] Let_def)
      next
        case False
        with True wf show ?thesis by (auto simp add: Node_insert.simps[of this item] Let_def)
      qed
    next
      case False
      with wf have len: "length (nodes this) = 4" and ch: "\<forall>c \<in> set (nodes this). wf_node c"
        by (simp_all add: wf_node_iff[of this])
      let ?i = "findInsertNode this item"
      show ?thesis
      proof (cases "?i = PARENT")
        case True
        with False wf show ?thesis by (simp add: Node_insert.simps[of this item] Let_def)
      next
        case np: False
        with findInsertNode_cases[of this item] len have lt: "?i < length (nodes this)" by simp
        then have "wf_node (nodes this ! ?i)" using ch by simp
        with "1.IH"(1)[OF False refl np lt] obtain c where
          c: "Node_insert (nodes this ! ?i) item = Some c" "wf_node c" by auto
        have "\<forall>c' \<in> set ((nodes this)[?i := c]). wf_node c'"
          using ch c(2) set_update_subset_insert[of "nodes this" ?i c] by auto
        with c False np lt len show ?thesis
          by (simp add: Node_insert.simps[of this item] Let_def wf_node_set_nodes)
      qed
    qed
  qed
next
  case (2 this)
  show ?case
  proof
    assume a: "wf_node this \<and> nodes this = []"
    let ?x = "divide_nodes this"
    have "wf_node (set_items ?x [])" using a by (simp add: wf_node_divide_nodes)
    moreover have "nodes (set_items ?x []) \<noteq> []" using a by (simp add: divide_nodes_leaf)
    ultimately obtain n' where
      "insert_each (set_items ?x []) (items ?x) = Some n'" "wf_node n'"
      "same_frame (set_items ?x []) n'" "nodes n' \<noteq> []"
      using "2.IH"[OF refl refl refl] by auto
    then show "\<exists>n'. Node_divide this = Some n' \<and> wf_node n' \<and> same_frame this n' \<and> nodes n' \<noteq> []"
      by (simp add: Node_divide.simps[of this] Let_def)
  qed
next
  case (3 this)
  show ?case by simp
next
  case (4 this el els)
  show ?case
  proof
    assume wf: "wf_node this"
    with "4.IH"(1) obtain x where
      x: "Node_insert this el = Some x" "wf_node x" "same_frame this x"
         "nodes this \<noteq> [] \<longrightarrow> nodes x \<noteq> []" by auto
    with "4.IH"(2)[OF x(1)] obtain n' where
      "insert_each x els = Some n'" "wf_node n'" "same_frame x n'"
      "nodes x \<noteq> [] \<longrightarrow> nodes n' \<noteq> []" by auto
    with x show "\<exists>n'. insert_each this (el # els) = Some n' \<and> wf_node n' \<and> same_frame this n' \<and>
        (nodes this \<noteq> [] \<longrightarrow> nodes n' \<noteq> [])"
      by (auto intro: same_frame_trans)
  qed
qed

lemma insert_wf:
  assumes "wf_node n" "Node_insert n it = Some n'"
  shows "wf_node n'" "same_frame n n'" "nodes n \<noteq> [] \<Longrightarrow> nodes n' \<noteq> []"
  using insert_total(1)[of n it] assms by auto

lemma insert_each_wf:
  assumes "wf_node n" "insert_each n els = Some n'"
  shows "wf_node n'" "same_frame n n'" "nodes n \<noteq> [] \<Longrightarrow> nodes n' \<noteq> []"
  using insert_total(3)[of n els] assms by auto

lemma divide_wf:
  assumes "wf_node n" "nodes n = []" "Node_divide n = Some n'"
  shows "wf_node n'" "same_frame n n'" "nodes n' \<noteq> []"
  using insert_total(2)[of n] assms by auto

lemma findInsertNode_frame: "same_frame n n' \<Longrightarrow> findInsertNode n' q = findInsertNode n q"
  by (simp add: same_frame_def findInsertNode_def)

lemma findOverlappingNodes_frame:
  "same_frame n n' \<Longrightarrow> findOverlappingNodes n' q = findOverlappingNodes n q"
  by (simp add: same_frame_def findOverlappingNodes_def)

lemma insert_overlaps:
  "0 \<le> item_w it \<Longrightarrow> 0 \<le> item_h it \<Longrightarrow> findInsertNode n it \<noteq> PARENT \<Longrightarrow>
   findInsertNode n it \<in> set (findOverlappingNodes n it)"
  by (auto simp: findInsertNode_def findOverlappingNodes_def TOP_LEFT_def TOP_RIGHT_def
      BOTTOM_LEFT_def BOTTOM_RIGHT_def PARENT_def split: if_splits)

lemma insert_internal:
  assumes "nodes n \<noteq> []"
  shows "Node_insert n it =
    (if findInsertNode n it = PARENT then Some (set_items n (items n @ [it]))
     else if findInsertNode n it < length (nodes n) then
       (case Node_insert (nodes n ! findInsertNode n it) it of None \<Rightarrow> None
        | Some c \<Rightarrow> Some (set_nodes n ((nodes n)[findInsertNode n it := c])))
     else None)"
  using assms by (simp add: Node_insert.simps[of n it] Let_def)

lemma insert_leaf:
  assumes "nodes n = []"
  shows "Node_insert n it =
    (if maxChildren n < Suc (length (items n)) \<and> depth n < maxDepth n
     then Node_divide (set_items n (items n @ [it]))
     else Some (set_items n (items n @ [it])))"
  using assms by (simp add: Node_insert.simps[of n it] Let_def)

lemma divide_eq:
  "Node_divide n = insert_each (set_items (divide_nodes n) []) (items n)"
  by (simp add: Node_divide.simps[of n] Let_def)

section \<open>What a retrieval visits\<close>

text \<open>
  On a well-formed tree \<^verbatim>\<open>retrieve\<close> returns the tree it was given and has applied the
  callback, in order, to the items of \<open>visit\<close> (\<open>retrieve_visit\<close>).
\<close>

lemma findOverlappingNodes_lt: "d \<in> set (findOverlappingNodes n q) \<Longrightarrow> d < 4"
  by (auto simp: findOverlappingNodes_def TOP_LEFT_def TOP_RIGHT_def BOTTOM_LEFT_def
      BOTTOM_RIGHT_def split: if_splits)

lemma visit_leaf: "nodes n = [] \<Longrightarrow> visit n q = items n"
  by (simp add: visit.simps[of n q])

lemma visit_internal:
  assumes "wf_node n" "nodes n \<noteq> []"
  shows "visit n q = items n @
    concat (map (\<lambda>d. visit (nodes n ! d) q) (findOverlappingNodes n q))"
proof -
  from assms have "length (nodes n) = 4" by (simp add: wf_node_iff[of n])
  then have "map (\<lambda>d. if d < length (nodes n) then visit (nodes n ! d) q else [])
                   (findOverlappingNodes n q)
               = map (\<lambda>d. visit (nodes n ! d) q) (findOverlappingNodes n q)"
    by (intro map_cong) (simp_all add: findOverlappingNodes_lt)
  then show ?thesis by (subst visit.simps) (simp only:)
qed

lemma retrieve_visit:
  "wf_node n \<longrightarrow> Node_retrieve n q cb s = Some (n, fold cb (visit n q) s)"
  "wf_node n \<and> (\<forall>d \<in> set ds. d < length (nodes n)) \<longrightarrow> retrieve_each n ds q cb s =
     Some (n, fold cb (concat (map (\<lambda>d. visit (nodes n ! d) q) ds)) s)"
proof (induction n q cb s and n ds q cb s rule: Node_retrieve_retrieve_each.induct)
  case (1 this item callback s)
  show ?case
  proof
    assume wf: "wf_node this"
    show "Node_retrieve this item callback s = Some (this, fold callback (visit this item) s)"
    proof (cases "nodes this = []")
      case True
      then show ?thesis by (simp add: Node_retrieve.simps[of this item] visit_leaf)
    next
      case False
      with wf have len: "length (nodes this) = 4" by (simp add: wf_node_iff[of this])
      then have lt: "\<forall>d \<in> set (findOverlappingNodes this item). d < length (nodes this)"
        by (simp add: findOverlappingNodes_lt)
      then have meq: "map (\<lambda>d. if d < length (nodes this) then visit (nodes this ! d) item else [])
                   (findOverlappingNodes this item)
               = map (\<lambda>d. visit (nodes this ! d) item) (findOverlappingNodes this item)"
        by (intro map_cong) simp_all
      have v: "visit this item = items this @
          concat (map (\<lambda>d. visit (nodes this ! d) item) (findOverlappingNodes this item))"
        by (subst visit.simps) (simp only: meq)
      from "1.IH"[OF refl False] wf lt show ?thesis
        by (simp add: Node_retrieve.simps[of this item] False v)
    qed
  qed
next
  case (2 this item callback s)
  show ?case by simp
next
  case (3 this dir dirs item callback s)
  show ?case
  proof
    assume a: "wf_node this \<and> (\<forall>d \<in> set (dir # dirs). d < length (nodes this))"
    then have lt: "dir < length (nodes this)" by simp
    with a have "wf_node (nodes this ! dir)" by (simp add: wf_node_iff[of this])
    with "3.IH"(1)[OF lt] have
      c: "Node_retrieve (nodes this ! dir) item callback s =
            Some (nodes this ! dir, fold callback (visit (nodes this ! dir) item) s)" by simp
    from "3.IH"(2)[OF lt c refl] a have
      "retrieve_each this dirs item callback (fold callback (visit (nodes this ! dir) item) s) =
         Some (this, fold callback (concat (map (\<lambda>d. visit (nodes this ! d) item) dirs))
                 (fold callback (visit (nodes this ! dir) item) s))"
      by simp
    with lt c show "retrieve_each this (dir # dirs) item callback s =
        Some (this, fold callback (concat (map (\<lambda>d. visit (nodes this ! d) item) (dir # dirs))) s)"
      by simp
  qed
qed

lemma fold_collect: "fold collect xs acc = acc @ xs"
  by (induction xs arbitrary: acc) (simp_all add: collect_def)

lemma retrieve_collect:
  "wf_node n \<Longrightarrow> Node_retrieve n q collect [] = Some (n, visit n q)"
  by (simp add: retrieve_visit(1) fold_collect)

section \<open>Containment\<close>

text \<open>
  An item with non-negative extent that \<open>findInsertNode\<close> sends to a region overlaps that
  region in the sense of \<open>findOverlappingNodes\<close>, so a retrieval with the item's own box
  follows the path the insertion took.
\<close>

lemma containment_aux:
  "wf_node n \<and> 0 \<le> item_w it \<and> 0 \<le> item_h it \<longrightarrow>
     (\<forall>n'. Node_insert n it = Some n' \<longrightarrow> it \<in> set (visit n' it))"
  "wf_node n \<and> nodes n = [] \<and> items n \<noteq> [] \<and>
     0 \<le> item_w (last (items n)) \<and> 0 \<le> item_h (last (items n)) \<longrightarrow>
     (\<forall>n'. Node_divide n = Some n' \<longrightarrow> last (items n) \<in> set (visit n' (last (items n))))"
  "wf_node n \<and> els \<noteq> [] \<and> 0 \<le> item_w (last els) \<and> 0 \<le> item_h (last els) \<longrightarrow>
     (\<forall>n'. insert_each n els = Some n' \<longrightarrow> last els \<in> set (visit n' (last els)))"
proof (induction n it and n and n els rule: Node_insert_Node_divide_insert_each.induct)
  case (1 this item)
  show ?case
  proof (intro impI allI, elim conjE)
    fix n'
    assume wf: "wf_node this" and w: "0 \<le> item_w item" and h: "0 \<le> item_h item"
      and ins: "Node_insert this item = Some n'"
    show "item \<in> set (visit n' item)"
    proof (cases "nodes this = []")
      case True
      let ?t = "set_items this (items this @ [item])"
      show ?thesis
      proof (cases "maxChildren ?t < length (items ?t) \<and> depth ?t < maxDepth ?t")
        case d: True
        with ins True have "Node_divide ?t = Some n'" by (simp add: insert_leaf)
        with "1.IH"(2)[OF _ refl d] True wf w h show ?thesis by simp
      next
        case False
        with ins True have "n' = ?t" by (auto simp: insert_leaf)
        with True show ?thesis by (simp add: visit_leaf)
      qed
    next
      case False
      let ?i = "findInsertNode this item"
      note wf' = insert_wf[OF wf ins]
      from wf'(3) False have int': "nodes n' \<noteq> []" by simp
      show ?thesis
      proof (cases "?i = PARENT")
        case True
        with ins False have "n' = set_items this (items this @ [item])"
          by (simp add: insert_internal)
        then show ?thesis using visit_internal[OF wf'(1) int', of item] by simp
      next
        case np: False
        from wf False have len: "length (nodes this) = 4" and
          ch: "\<forall>c \<in> set (nodes this). wf_node c" by (simp_all add: wf_node_iff[of this])
        from np findInsertNode_cases[of this item] len have lt: "?i < length (nodes this)"
          by simp
        with ins False np obtain c where
          c: "Node_insert (nodes this ! ?i) item = Some c" and
          n': "n' = set_nodes this ((nodes this)[?i := c])"
          by (auto simp: insert_internal split: option.splits)
        from ch lt have "wf_node (nodes this ! ?i)" by simp
        with "1.IH"(1)[OF False refl np lt] w h c have "item \<in> set (visit c item)" by simp
        moreover have "?i \<in> set (findOverlappingNodes n' item)"
          using insert_overlaps[OF w h np] findOverlappingNodes_frame[OF wf'(2), of item]
          by simp
        moreover have "nodes n' ! ?i = c" using n' lt by simp
        ultimately show ?thesis
          using visit_internal[OF wf'(1) int', of item] by auto
      qed
    qed
  qed
next
  case (2 this)
  show ?case
  proof (intro impI allI, elim conjE)
    fix n'
    assume wf: "wf_node this" and leaf: "nodes this = []" and ne: "items this \<noteq> []"
      and w: "0 \<le> item_w (last (items this))" and h: "0 \<le> item_h (last (items this))"
      and d: "Node_divide this = Some n'"
    have "wf_node (set_items (divide_nodes this) [])"
      using leaf by (simp add: wf_node_divide_nodes)
    with "2.IH"[OF refl refl refl] ne w h d
    show "last (items this) \<in> set (visit n' (last (items this)))"
      by (simp add: divide_eq)
  qed
next
  case (3 this)
  show ?case by simp
next
  case (4 this el els)
  show ?case
  proof (intro impI allI, elim conjE)
    fix n'
    assume wf: "wf_node this" and w: "0 \<le> item_w (last (el # els))"
      and h: "0 \<le> item_h (last (el # els))"
      and e: "insert_each this (el # els) = Some n'"
    from e obtain x where x: "Node_insert this el = Some x" and r: "insert_each x els = Some n'"
      by (auto split: option.splits)
    show "last (el # els) \<in> set (visit n' (last (el # els)))"
    proof (cases "els = []")
      case True
      with r have "n' = x" by simp
      with "4.IH"(1) wf w h x True show ?thesis by simp
    next
      case False
      with "4.IH"(2)[OF x] insert_wf(1)[OF wf x] w h r show ?thesis by simp
    qed
  qed
qed

text \<open>
  Claim C1 (containment). For every well-formed tree and every item with non-negative
  \<^verbatim>\<open>w\<close> and \<^verbatim>\<open>h\<close>: \<^verbatim>\<open>insert(item)\<close> returns, and a \<^verbatim>\<open>retrieve\<close> on the resulting tree whose
  query is the item itself returns and has invoked the callback on that item at least
  once. The item need not lie inside the box of the tree.
\<close>

theorem C1_containment:
  assumes "wf_node n" "0 \<le> item_w it" "0 \<le> item_h it"
  shows "\<exists>n'. Node_insert n it = Some n' \<and>
    (\<exists>acc. Node_retrieve n' it collect [] = Some (n', acc) \<and> it \<in> set acc)"
proof -
  from insert_total(1)[of n it] assms(1) obtain n' where
    n': "Node_insert n it = Some n'" "wf_node n'" by auto
  with containment_aux(1)[of n it] assms have "it \<in> set (visit n' it)" by simp
  with n' show ?thesis by (simp add: retrieve_collect)
qed

theorem C1_containment_witness:
  "wf_node (Node [\<lparr>item_x = 0, item_y = 0, item_w = 10, item_h = 10\<rparr>,
                  \<lparr>item_x = 60, item_y = 60, item_w = 10, item_h = 10\<rparr>] [] 2 4 0 0 100 100 0) \<and>
   (0::real) \<le> item_w \<lparr>item_x = 5, item_y = 5, item_w = 5, item_h = 5\<rparr> \<and>
   (0::real) \<le> item_h \<lparr>item_x = 5, item_y = 5, item_w = 5, item_h = 5\<rparr> \<and>
   (\<exists>n'. Node_insert (Node [\<lparr>item_x = 0, item_y = 0, item_w = 10, item_h = 10\<rparr>,
                  \<lparr>item_x = 60, item_y = 60, item_w = 10, item_h = 10\<rparr>] [] 2 4 0 0 100 100 0)
             \<lparr>item_x = 5, item_y = 5, item_w = 5, item_h = 5\<rparr> = Some n' \<and>
      (\<exists>acc. Node_retrieve n' \<lparr>item_x = 5, item_y = 5, item_w = 5, item_h = 5\<rparr> collect [] =
          Some (n', acc) \<and>
        \<lparr>item_x = 5, item_y = 5, item_w = 5, item_h = 5\<rparr> \<in> set acc))"
  using C1_containment[of "Node [\<lparr>item_x = 0, item_y = 0, item_w = 10, item_h = 10\<rparr>,
                  \<lparr>item_x = 60, item_y = 60, item_w = 10, item_h = 10\<rparr>] [] 2 4 0 0 100 100 0"
        "\<lparr>item_x = 5, item_y = 5, item_w = 5, item_h = 5\<rparr>"]
  by simp

section \<open>Retrieval order\<close>

text \<open>The equations that evaluate the methods on a concrete tree.\<close>

lemmas eval_defs = Node_insert.simps Node_divide.simps Node_retrieve.simps divide_nodes_def
  set_items_def set_nodes_def new_Node_def findInsertNode_def findOverlappingNodes_def
  TOP_LEFT_def TOP_RIGHT_def BOTTOM_LEFT_def BOTTOM_RIGHT_def PARENT_def Let_def collect_def

lemma retrieved_visit: "wf_node n \<Longrightarrow> retrieved n q = Some (visit n q)"
  by (simp add: retrieved_def retrieve_collect)

lemma overlapping_filter:
  "findOverlappingNodes n q =
     filter (\<lambda>d. d \<in> set (findOverlappingNodes n q))
       [TOP_LEFT, BOTTOM_LEFT, TOP_RIGHT, BOTTOM_RIGHT]"
  by (simp add: findOverlappingNodes_def TOP_LEFT_def TOP_RIGHT_def BOTTOM_LEFT_def
      BOTTOM_RIGHT_def)

text \<open>
  Claim C3 as stated (own items, then the overlapping subnodes in the order top left,
  top right, bottom left, bottom right) fails: with a query that overlaps all four
  regions, the item of the bottom left subnode is visited before the item of the top
  right subnode.
\<close>

theorem C3_counterexample:
  "insert_each (new_Node 0 0 100 100 0 1 4) [ex_bl, ex_tr] = Some ex_tree \<and>
   retrieved ex_tree ex_box = Some [ex_bl, ex_tr] \<and>
   in_quadrant_order [TOP_LEFT, TOP_RIGHT, BOTTOM_LEFT, BOTTOM_RIGHT] ex_tree ex_box
     = [ex_tr, ex_bl] \<and>
   retrieved ex_tree ex_box
     \<noteq> Some (in_quadrant_order [TOP_LEFT, TOP_RIGHT, BOTTOM_LEFT, BOTTOM_RIGHT] ex_tree ex_box)"
  by (simp add: ex_tree_def ex_bl_def ex_tr_def ex_box_def retrieved_def in_quadrant_order_def
      eval_defs)

text \<open>
  Claim C3, amended. For every well-formed tree and every query, \<^verbatim>\<open>retrieve\<close> visits the
  node's own items first, in the order of \<^verbatim>\<open>this.items\<close> (insertion order), and then the
  results of each overlapping subnode in the order top left, bottom left, top right,
  bottom right.
\<close>

theorem C3_retrieval_order:
  assumes "wf_node n"
  shows "retrieved n q =
    Some (in_quadrant_order [TOP_LEFT, BOTTOM_LEFT, TOP_RIGHT, BOTTOM_RIGHT] n q)"
proof (cases "nodes n = []")
  case True
  with assms show ?thesis
    by (simp add: retrieved_visit in_quadrant_order_def visit_leaf)
next
  case False
  with assms have len: "length (nodes n) = 4" and ch: "\<forall>c \<in> set (nodes n). wf_node c"
    by (simp_all add: wf_node_iff[of n])
  have meq: "map (\<lambda>d. case retrieved (nodes n ! d) q of Some r \<Rightarrow> r | None \<Rightarrow> [])
          (findOverlappingNodes n q)
        = map (\<lambda>d. visit (nodes n ! d) q) (findOverlappingNodes n q)"
    using len ch by (intro map_cong) (auto simp: retrieved_visit dest: findOverlappingNodes_lt)
  have "in_quadrant_order [TOP_LEFT, BOTTOM_LEFT, TOP_RIGHT, BOTTOM_RIGHT] n q =
      items n @ concat (map (\<lambda>d. case retrieved (nodes n ! d) q of Some r \<Rightarrow> r | None \<Rightarrow> [])
          (findOverlappingNodes n q))"
    unfolding in_quadrant_order_def overlapping_filter[of n q, symmetric] using False by simp
  also have "\<dots> = visit n q"
    unfolding meq using visit_internal[OF assms False, of q] by simp
  finally show ?thesis using assms by (simp add: retrieved_visit)
qed

theorem C3_retrieval_order_witness:
  "wf_node ex_tree \<and>
   retrieved ex_tree ex_box =
     Some (in_quadrant_order [TOP_LEFT, BOTTOM_LEFT, TOP_RIGHT, BOTTOM_RIGHT] ex_tree ex_box) \<and>
   in_quadrant_order [TOP_LEFT, BOTTOM_LEFT, TOP_RIGHT, BOTTOM_RIGHT] ex_tree ex_box
     = [ex_bl, ex_tr]"
  using C3_retrieval_order[of ex_tree ex_box]
  by (simp add: ex_tree_def ex_bl_def ex_tr_def ex_box_def retrieved_def in_quadrant_order_def
      eval_defs)

section \<open>Retrieval writes nothing\<close>

lemma retrieve_frame:
  "Node_retrieve n q cb s = Some (n', s') \<Longrightarrow> n' = n"
  "retrieve_each n ds q cb s = Some (n', s') \<Longrightarrow> n' = n"
proof (induction n q cb s and n ds q cb s arbitrary: n' s' and n' s'
    rule: Node_retrieve_retrieve_each.induct)
  case (1 this item callback s)
  then show ?case
    by (auto simp: Node_retrieve.simps[of this item] Let_def split: if_splits)
next
  case (2 this item callback s)
  then show ?case by simp
next
  case (3 this dir dirs item callback s)
  from "3.prems" obtain c s1 where
    lt: "dir < length (nodes this)" and
    c: "Node_retrieve (nodes this ! dir) item callback s = Some (c, s1)" and
    r: "retrieve_each (set_nodes this ((nodes this)[dir := c])) dirs item callback s1
          = Some (n', s')"
    by (auto split: if_splits option.splits)
  have "c = nodes this ! dir" using "3.IH"(1)[OF lt c] .
  then have e: "set_nodes this ((nodes this)[dir := c]) = this" by simp
  from "3.IH"(2)[OF lt c refl r] e show ?case by simp
qed

text \<open>
  Claim C9 (retrieve is read-only). Whenever \<^verbatim>\<open>Node.retrieve\<close> returns, the whole tree
  below the node (the \<^verbatim>\<open>items\<close> and \<^verbatim>\<open>nodes\<close> of every node) is as it was before the call,
  and on a well-formed tree it does return; the same holds for \<^verbatim>\<open>QUAD.retrieve\<close>. The
  callback acts on the caller's state only.
\<close>

theorem C9_retrieve_read_only:
  "(\<forall>n' s'. Node_retrieve n q cb s = Some (n', s') \<longrightarrow> n' = n) \<and>
   (wf_node n \<longrightarrow> (\<exists>s'. Node_retrieve n q cb s = Some (n, s'))) \<and>
   (\<forall>Q' s'. QUAD_retrieve Q q cb s = Some (Q', s') \<longrightarrow> Q' = Q) \<and>
   (wf_node (root Q) \<longrightarrow> (\<exists>s'. QUAD_retrieve Q q cb s = Some (Q, s')))"
proof (intro conjI allI impI)
  fix n' s' assume "Node_retrieve n q cb s = Some (n', s')"
  then show "n' = n" by (rule retrieve_frame(1))
next
  assume "wf_node n"
  then show "\<exists>s'. Node_retrieve n q cb s = Some (n, s')"
    by (simp add: retrieve_visit(1))
next
  fix Q' s' assume "QUAD_retrieve Q q cb s = Some (Q', s')"
  then show "Q' = Q"
    by (auto simp: QUAD_retrieve_def dest: retrieve_frame(1))
next
  assume "wf_node (root Q)"
  then show "\<exists>s'. QUAD_retrieve Q q cb s = Some (Q, s')"
    by (simp add: QUAD_retrieve_def retrieve_visit(1))
qed

theorem C9_retrieve_read_only_witness:
  "wf_node ex_tree \<and>
   Node_retrieve ex_tree ex_box collect [] = Some (ex_tree, [ex_bl, ex_tr]) \<and>
   QUAD_retrieve \<lparr>root = ex_tree\<rparr> ex_box collect [] = Some (\<lparr>root = ex_tree\<rparr>, [ex_bl, ex_tr])"
proof -
  have wf: "wf_node ex_tree" by (simp add: ex_tree_def)
  have r: "Node_retrieve ex_tree ex_box collect [] = Some (ex_tree, [ex_bl, ex_tr])"
    by (simp add: ex_tree_def ex_bl_def ex_tr_def ex_box_def eval_defs)
  from C9_retrieve_read_only[of ex_tree ex_box collect "[]" "\<lparr>root = ex_tree\<rparr>"] wf r
  show ?thesis by (auto simp: QUAD_retrieve_def)
qed

section \<open>Clearing\<close>

lemma clear_fst: "fst (Node_clear n) = set_nodes (set_items n []) []"
  by (cases n) (simp add: set_nodes_def set_items_def Let_def)

lemma clear_snd: "snd (Node_clear n) = map (\<lambda>m. fst (Node_clear m)) (descendants n)"
proof (induction n)
  case (Node its ns mc md x y w h d)
  have e: "map (\<lambda>c. case Node_clear c of (c', ds) \<Rightarrow> c' # ds) ns
      = map (\<lambda>c. fst (Node_clear c) # map (\<lambda>m. fst (Node_clear m)) (descendants c)) ns"
    by (rule map_cong[OF refl]) (simp add: Node.IH[symmetric] case_prod_beta)
  have "snd (Node_clear (Node its ns mc md x y w h d))
      = concat (map (\<lambda>c. case Node_clear c of (c', ds) \<Rightarrow> c' # ds) ns)"
    by (simp add: Let_def comp_def)
  also have "\<dots> = concat (map (\<lambda>c. fst (Node_clear c) #
      map (\<lambda>m. fst (Node_clear m)) (descendants c)) ns)"
    by (simp only: e)
  also have "\<dots> = map (\<lambda>m. fst (Node_clear m)) (descendants (Node its ns mc md x y w h d))"
    by (simp add: map_concat comp_def)
  finally show ?case .
qed

lemma retrieve_leaf: "nodes n = [] \<Longrightarrow> Node_retrieve n q cb s = Some (n, fold cb (items n) s)"
  by (simp add: Node_retrieve.simps[of n q])

text \<open>
  Claim C7 (clear). After \<^verbatim>\<open>clear()\<close> on any tree: the node has no items and no subnodes;
  its \<^verbatim>\<open>x\<close>, \<^verbatim>\<open>y\<close>, \<^verbatim>\<open>w\<close>, \<^verbatim>\<open>h\<close>, \<^verbatim>\<open>depth\<close>, \<^verbatim>\<open>maxChildren\<close> and \<^verbatim>\<open>maxDepth\<close> are unchanged; every
  former descendant is left with no items and no subnodes and its other fields
  unchanged; a \<^verbatim>\<open>retrieve\<close> on the cleared node, with any query, invokes the callback on
  nothing; a second \<^verbatim>\<open>clear()\<close> changes nothing; and \<^verbatim>\<open>QUAD.clear\<close> is \<^verbatim>\<open>clear\<close> on the root.
\<close>

theorem C7_clear:
  "items (fst (Node_clear n)) = [] \<and> nodes (fst (Node_clear n)) = [] \<and>
   same_frame n (fst (Node_clear n)) \<and>
   list_all2 (\<lambda>m m'. items m' = [] \<and> nodes m' = [] \<and> same_frame m m')
     (descendants n) (snd (Node_clear n)) \<and>
   Node_retrieve (fst (Node_clear n)) q cb s = Some (fst (Node_clear n), s) \<and>
   Node_clear (fst (Node_clear n)) = (fst (Node_clear n), []) \<and>
   fst (QUAD_clear Q) = Q\<lparr>root := fst (Node_clear (root Q))\<rparr> \<and>
   snd (QUAD_clear Q) = snd (Node_clear (root Q))"
proof -
  have d: "list_all2 (\<lambda>m m'. items m' = [] \<and> nodes m' = [] \<and> same_frame m m')
      (descendants n) (snd (Node_clear n))"
    unfolding clear_snd by (simp add: list_all2_map2 clear_fst list_all2_same same_frame_def)
  have i: "Node_clear (fst (Node_clear n)) = (fst (Node_clear n), [])"
    by (cases n) (simp add: Let_def)
  have f: "same_frame n (fst (Node_clear n))"
    by (simp add: clear_fst same_frame_def)
  have r: "Node_retrieve (fst (Node_clear n)) q cb s = Some (fst (Node_clear n), s)"
    by (simp add: retrieve_leaf clear_fst)
  have Q: "fst (QUAD_clear Q) = Q\<lparr>root := fst (Node_clear (root Q))\<rparr>"
    "snd (QUAD_clear Q) = snd (Node_clear (root Q))"
    by (simp_all add: QUAD_clear_def case_prod_beta)
  from d i f r Q show ?thesis by (simp add: clear_fst)
qed

section \<open>The constructor of \<^verbatim>\<open>QUAD\<close>\<close>

text \<open>
  Claim C10 (the constructor writes to the caller's object). After \<^verbatim>\<open>new QUAD(args)\<close> the
  caller's object holds \<^verbatim>\<open>maxChildren\<close> and \<^verbatim>\<open>maxDepth\<close>: the defaults 2 and 4 where the
  field was omitted or falsy, the given value otherwise; the other fields are as they
  were.
\<close>

theorem C10_constructor_writes_defaults:
  "snd (new_QUAD a :: 'i QUAD \<times> args) =
     a\<lparr>args_maxChildren := Some (or_default (args_maxChildren a) 2),
       args_maxDepth := Some (or_default (args_maxDepth a) 4)\<rparr> \<and>
   (args_maxChildren a = None \<or> args_maxChildren a = Some 0 \<longrightarrow>
      args_maxChildren (snd (new_QUAD a :: 'i QUAD \<times> args)) = Some 2) \<and>
   (args_maxDepth a = None \<or> args_maxDepth a = Some 0 \<longrightarrow>
      args_maxDepth (snd (new_QUAD a :: 'i QUAD \<times> args)) = Some 4) \<and>
   (\<forall>v. args_maxChildren a = Some v \<and> v \<noteq> 0 \<longrightarrow>
      args_maxChildren (snd (new_QUAD a :: 'i QUAD \<times> args)) = Some v) \<and>
   (\<forall>v. args_maxDepth a = Some v \<and> v \<noteq> 0 \<longrightarrow>
      args_maxDepth (snd (new_QUAD a :: 'i QUAD \<times> args)) = Some v)"
  by (auto simp: new_QUAD_def Let_def)

theorem C10_constructor_writes_defaults_witness:
  "args_maxChildren \<lparr>args_x = 0, args_y = 0, args_w = 100, args_h = 100,
      args_maxChildren = None, args_maxDepth = Some 0\<rparr> = None \<and>
   args_maxDepth \<lparr>args_x = 0, args_y = 0, args_w = 100, args_h = 100,
      args_maxChildren = None, args_maxDepth = Some 0\<rparr> = Some 0 \<and>
   snd (new_QUAD \<lparr>args_x = 0, args_y = 0, args_w = 100, args_h = 100,
      args_maxChildren = None, args_maxDepth = Some 0\<rparr> :: item QUAD \<times> args) =
     \<lparr>args_x = 0, args_y = 0, args_w = 100, args_h = 100,
      args_maxChildren = Some 2, args_maxDepth = Some 4\<rparr>"
  using C10_constructor_writes_defaults[where 'i = item, of
    "\<lparr>args_x = 0, args_y = 0, args_w = 100, args_h = 100,
      args_maxChildren = None, args_maxDepth = Some 0\<rparr>"]
  by simp

section \<open>Insertion into an inner node\<close>

lemma findInsertNode_set_items [simp]:
  "findInsertNode (set_items n its) q = findInsertNode n q"
  by (simp add: findInsertNode_def)

lemma insert_each_parent:
  "nodes n \<noteq> [] \<Longrightarrow> \<forall>x \<in> set its. findInsertNode n x = PARENT \<Longrightarrow>
   insert_each n its = Some (set_items n (items n @ its))"
proof (induction its arbitrary: n)
  case Nil
  then show ?case by simp
next
  case (Cons a its)
  let ?m = "set_items n (items n @ [a])"
  from Cons.prems have "Node_insert n a = Some ?m" by (simp add: insert_internal)
  moreover have "insert_each ?m its = Some (set_items ?m (items ?m @ its))"
    using Cons.prems by (intro Cons.IH) simp_all
  ultimately show ?case by (simp add: set_items_def)
qed

lemma insert_internal_length:
  "nodes n \<noteq> [] \<Longrightarrow> Node_insert n it = Some n' \<Longrightarrow> length (nodes n') = length (nodes n)"
  by (auto simp: insert_internal split: if_splits option.splits)

text \<open>
  Claim C8 (only a leaf divides). When \<^verbatim>\<open>insert\<close> reaches a node that has subnodes: an
  item classified \<^verbatim>\<open>PARENT\<close> is appended to the node's items, whatever their number; the
  node keeps the number of subnodes it has; and any sequence of such items is appended
  whole, so the length of \<^verbatim>\<open>items\<close> can exceed \<^verbatim>\<open>maxChildren\<close>.
\<close>

theorem C8_inner_node_never_divides:
  assumes "nodes n \<noteq> []"
  shows "(findInsertNode n it = PARENT \<longrightarrow>
            Node_insert n it = Some (set_items n (items n @ [it]))) \<and>
         (\<forall>n'. Node_insert n it = Some n' \<longrightarrow> length (nodes n') = length (nodes n)) \<and>
         ((\<forall>x \<in> set its. findInsertNode n x = PARENT) \<longrightarrow>
            insert_each n its = Some (set_items n (items n @ its)))"
proof (intro conjI allI impI)
  assume "findInsertNode n it = PARENT"
  with assms show "Node_insert n it = Some (set_items n (items n @ [it]))"
    by (simp add: insert_internal)
next
  fix n' assume "Node_insert n it = Some n'"
  with assms show "length (nodes n') = length (nodes n)"
    by (rule insert_internal_length)
next
  assume "\<forall>x \<in> set its. findInsertNode n x = PARENT"
  with assms show "insert_each n its = Some (set_items n (items n @ its))"
    by (rule insert_each_parent)
qed

theorem C8_inner_node_never_divides_witness:
  "nodes ex_tree \<noteq> [] \<and> findInsertNode ex_tree ex_mid = PARENT \<and>
   insert_each ex_tree [ex_mid, ex_mid, ex_mid] =
     Some (set_items ex_tree [ex_mid, ex_mid, ex_mid]) \<and>
   maxChildren ex_tree < length (items (set_items ex_tree [ex_mid, ex_mid, ex_mid])) \<and>
   depth ex_tree < maxDepth ex_tree \<and>
   length (nodes (set_items ex_tree [ex_mid, ex_mid, ex_mid])) = length (nodes ex_tree)"
proof -
  have 1: "nodes ex_tree \<noteq> []" by (simp add: ex_tree_def)
  have 2: "findInsertNode ex_tree ex_mid = PARENT"
    by (simp add: ex_tree_def ex_mid_def findInsertNode_def)
  have 3: "items ex_tree = []" "maxChildren ex_tree = 1" "depth ex_tree = 0"
    "maxDepth ex_tree = 4" by (simp_all add: ex_tree_def)
  from C8_inner_node_never_divides[OF 1, of ex_mid "[ex_mid, ex_mid, ex_mid]"] 1 2 3
  show ?thesis by (simp del: insert_each.simps)
qed

section \<open>Properties of every node of a tree\<close>

text \<open>
  Insertion keeps a property of every node when the property depends only on the
  fields no method assigns (the box, the depth, the two limits) and passes from a
  dividing leaf to the four subnodes it creates (\<open>every_node_insert\<close>).
\<close>

lemma every_node_iff:
  "every_node P n \<longleftrightarrow> P n \<and> (\<forall>c \<in> set (nodes n). every_node P c)"
  by (cases n) simp

lemma every_node_leaf: "nodes n = [] \<Longrightarrow> every_node P n = P n"
  by (simp add: every_node_iff[of P n])

lemma every_node_set_items:
  "every_node P (set_items n its) \<longleftrightarrow>
     P (set_items n its) \<and> (\<forall>c \<in> set (nodes n). every_node P c)"
  by (simp add: every_node_iff[of P "set_items n its"])

lemma every_node_set_nodes:
  "every_node P (set_nodes n ns) \<longleftrightarrow>
     P (set_nodes n ns) \<and> (\<forall>c \<in> set ns. every_node P c)"
  by (simp add: every_node_iff[of P "set_nodes n ns"])

lemma every_node_insert:
  assumes frame: "\<And>m m'. same_frame m m' \<Longrightarrow> P m \<Longrightarrow> P m'"
    and kids: "\<And>m c. P m \<Longrightarrow> nodes m = [] \<Longrightarrow> depth m < maxDepth m \<Longrightarrow>
                 c \<in> set (nodes (divide_nodes m)) \<Longrightarrow> P c"
  shows "wf_node n \<and> every_node P n \<longrightarrow>
           (\<forall>n'. Node_insert n it = Some n' \<longrightarrow> every_node P n')"
    and "wf_node n \<and> nodes n = [] \<and> depth n < maxDepth n \<and> P n \<longrightarrow>
           (\<forall>n'. Node_divide n = Some n' \<longrightarrow> every_node P n')"
    and "wf_node n \<and> every_node P n \<longrightarrow>
           (\<forall>n'. insert_each n els = Some n' \<longrightarrow> every_node P n')"
proof (induction n it and n and n els rule: Node_insert_Node_divide_insert_each.induct)
  case (1 this item)
  show ?case
  proof (intro impI allI, elim conjE)
    fix n'
    assume wf: "wf_node this" and ev: "every_node P this"
      and ins: "Node_insert this item = Some n'"
    from ev have P: "P this" and ch: "\<forall>c \<in> set (nodes this). every_node P c"
      by (simp_all add: every_node_iff[of P this])
    show "every_node P n'"
    proof (cases "nodes this = []")
      case True
      let ?t = "set_items this (items this @ [item])"
      have Pt: "P ?t" using frame[OF _ P, of ?t] by simp
      show ?thesis
      proof (cases "maxChildren ?t < length (items ?t) \<and> depth ?t < maxDepth ?t")
        case d: True
        with ins True have "Node_divide ?t = Some n'" by (simp add: insert_leaf)
        with "1.IH"(2)[OF _ refl d] True wf Pt d show ?thesis by simp
      next
        case False
        with ins True have "n' = ?t" by (auto simp: insert_leaf)
        with True Pt show ?thesis by (simp add: every_node_leaf)
      qed
    next
      case False
      let ?i = "findInsertNode this item"
      show ?thesis
      proof (cases "?i = PARENT")
        case True
        with ins False have n': "n' = set_items this (items this @ [item])"
          by (simp add: insert_internal)
        have "P n'" unfolding n' using frame[OF _ P, of "set_items this (items this @ [item])"]
          by simp
        with ch show ?thesis by (simp add: every_node_set_items n')
      next
        case np: False
        from wf False have len: "length (nodes this) = 4" and
          wch: "\<forall>c \<in> set (nodes this). wf_node c" by (simp_all add: wf_node_iff[of this])
        from np findInsertNode_cases[of this item] len have lt: "?i < length (nodes this)"
          by simp
        with ins False np obtain c where
          c: "Node_insert (nodes this ! ?i) item = Some c" and
          n': "n' = set_nodes this ((nodes this)[?i := c])"
          by (auto simp: insert_internal split: option.splits)
        from wch ch lt have "wf_node (nodes this ! ?i)" "every_node P (nodes this ! ?i)"
          by simp_all
        with "1.IH"(1)[OF False refl np lt] c have "every_node P c" by simp
        then have "\<forall>c' \<in> set ((nodes this)[?i := c]). every_node P c'"
          using ch set_update_subset_insert[of "nodes this" ?i c] by auto
        moreover have "P n'" unfolding n'
          using frame[OF _ P, of "set_nodes this ((nodes this)[?i := c])"] by simp
        ultimately show ?thesis by (simp add: every_node_set_nodes n')
      qed
    qed
  qed
next
  case (2 this)
  show ?case
  proof (intro impI allI, elim conjE)
    fix n'
    assume wf: "wf_node this" and leaf: "nodes this = []" and dl: "depth this < maxDepth this"
      and P: "P this" and d: "Node_divide this = Some n'"
    let ?s = "set_items (divide_nodes this) []"
    have wfs: "wf_node ?s" using leaf by (simp add: wf_node_divide_nodes)
    have Ps: "P ?s" using frame[OF _ P, of ?s] by (simp add: same_frame_def)
    have "\<forall>c \<in> set (nodes ?s). every_node P c"
    proof
      fix c assume c: "c \<in> set (nodes ?s)"
      then have "P c" using kids[OF P leaf dl, of c] by simp
      moreover from c leaf have "nodes c = []"
        by (auto simp: divide_nodes_leaf new_Node_def)
      ultimately show "every_node P c" by (simp add: every_node_leaf)
    qed
    with Ps have "every_node P ?s" by (simp add: every_node_set_items)
    with "2.IH"[OF refl refl refl] wfs d show "every_node P n'" by (simp add: divide_eq)
  qed
next
  case (3 this)
  show ?case by simp
next
  case (4 this el els)
  show ?case
  proof (intro impI allI, elim conjE)
    fix n'
    assume wf: "wf_node this" and ev: "every_node P this"
      and e: "insert_each this (el # els) = Some n'"
    from e obtain x where x: "Node_insert this el = Some x" and r: "insert_each x els = Some n'"
      by (auto split: option.splits)
    from "4.IH"(1) wf ev x have "every_node P x" by simp
    with "4.IH"(2)[OF x] insert_wf(1)[OF wf x] r show "every_node P n'" by simp
  qed
qed

lemma every_node_mono:
  "(\<And>m. P m \<Longrightarrow> Q m) \<Longrightarrow> every_node P n \<Longrightarrow> every_node Q n"
  by (induction n) auto

section \<open>The depth ceiling\<close>

lemma depth_ceiling_each:
  assumes "wf_node n" "every_node (at_most_depth d) n" "insert_each n els = Some n'"
  shows "every_node (at_most_depth d) n'"
proof -
  have "wf_node n \<and> every_node (at_most_depth d) n \<longrightarrow>
           (\<forall>n'. insert_each n els = Some n' \<longrightarrow> every_node (at_most_depth d) n')"
  proof (rule every_node_insert(3))
    fix m m' :: "'a item_scheme node"
    assume "same_frame m m'" "at_most_depth d m"
    then show "at_most_depth d m'" by (simp add: same_frame_def at_most_depth_def)
  next
    fix m c :: "'a item_scheme node"
    assume "at_most_depth d m" "nodes m = []" "depth m < maxDepth m"
      "c \<in> set (nodes (divide_nodes m))"
    then show "at_most_depth d c"
      by (auto simp: at_most_depth_def divide_nodes_leaf new_Node_def)
  qed
  with assms show ?thesis by simp
qed

lemma insert_at_ceiling:
  "nodes n = [] \<Longrightarrow> maxDepth n \<le> depth n \<Longrightarrow>
   insert_each n its = Some (set_items n (items n @ its))"
proof (induction its arbitrary: n)
  case Nil
  then show ?case by simp
next
  case (Cons a its)
  let ?m = "set_items n (items n @ [a])"
  from Cons.prems have "Node_insert n a = Some ?m" by (simp add: insert_leaf)
  moreover have "insert_each ?m its = Some (set_items ?m (items ?m @ its))"
    using Cons.prems by (intro Cons.IH) simp_all
  ultimately show ?case by (simp add: set_items_def)
qed

text \<open>
  Claim C5 (depth ceiling). For a tree whose root is created at depth 0 with
  \<^verbatim>\<open>maxDepth = d\<close>, any sequence of insertions returns and leaves no node at a depth
  greater than \<open>d\<close>; and a leaf whose depth equals its \<^verbatim>\<open>maxDepth\<close> takes any sequence of
  items into its own \<^verbatim>\<open>items\<close>, whatever \<^verbatim>\<open>maxChildren\<close> is, and stays a leaf.
\<close>

theorem C5_depth_ceiling:
  "(\<exists>t. insert_each (new_Node x y w h 0 mc d) its = Some t \<and>
        every_node (\<lambda>m. depth m \<le> d) t) \<and>
   (\<forall>m js. nodes m = [] \<and> depth m = maxDepth m \<longrightarrow>
        insert_each m js = Some (set_items m (items m @ js)))"
proof (intro conjI allI impI)
  let ?r = "new_Node x y w h 0 mc d :: 'a item_scheme node"
  have wf: "wf_node ?r" by simp
  have ev: "every_node (at_most_depth d) ?r"
    by (simp add: new_Node_def at_most_depth_def)
  from insert_total(3)[of ?r its] wf obtain t where t: "insert_each ?r its = Some t" by auto
  from depth_ceiling_each[OF wf ev t] have "every_node (\<lambda>m. depth m \<le> d) t"
    by (rule every_node_mono[rotated]) (simp add: at_most_depth_def)
  with t show "\<exists>t. insert_each ?r its = Some t \<and> every_node (\<lambda>m. depth m \<le> d) t" by blast
next
  fix m :: "'b item_scheme node" and js
  assume "nodes m = [] \<and> depth m = maxDepth m"
  then show "insert_each m js = Some (set_items m (items m @ js))"
    by (intro insert_at_ceiling) simp_all
qed

theorem C5_depth_ceiling_witness:
  "insert_each (new_Node 0 0 100 100 0 1 1) [ex_a, ex_b, ex_c] =
     Some (Node [] [Node [ex_a, ex_c] [] 1 1 0 0 50 50 1, Node [] [] 1 1 50 0 50 50 1,
                    Node [] [] 1 1 0 50 50 50 1, Node [ex_b] [] 1 1 50 50 50 50 1]
             1 1 0 0 100 100 0) \<and>
   every_node (\<lambda>m. depth m \<le> 1)
     (Node [] [Node [ex_a, ex_c] [] 1 1 0 0 50 50 1, Node [] [] 1 1 50 0 50 50 1,
               Node [] [] 1 1 0 50 50 50 1, Node [ex_b] [] 1 1 50 50 50 50 1]
        1 1 0 0 100 100 0) \<and>
   nodes (Node [ex_a] [] 1 1 0 0 50 50 1) = [] \<and>
   depth (Node [ex_a] [] 1 1 0 0 50 50 1) = maxDepth (Node [ex_a] [] 1 1 0 0 50 50 1) \<and>
   insert_each (Node [ex_a] [] 1 1 0 0 50 50 1) [ex_c, ex_c] =
     Some (Node [ex_a, ex_c, ex_c] [] 1 1 0 0 50 50 1)"
proof -
  have e: "insert_each (new_Node 0 0 100 100 0 1 1) [ex_a, ex_b, ex_c] =
     Some (Node [] [Node [ex_a, ex_c] [] 1 1 0 0 50 50 1, Node [] [] 1 1 50 0 50 50 1,
                    Node [] [] 1 1 0 50 50 50 1, Node [ex_b] [] 1 1 50 50 50 50 1]
             1 1 0 0 100 100 0)"
    by (simp add: ex_a_def ex_b_def ex_c_def eval_defs)
  note T = C5_depth_ceiling[of 0 0 100 100 1 1 "[ex_a, ex_b, ex_c]"]
  from conjunct1[OF T] e have d: "every_node (\<lambda>m. depth m \<le> 1)
     (Node [] [Node [ex_a, ex_c] [] 1 1 0 0 50 50 1, Node [] [] 1 1 50 0 50 50 1,
               Node [] [] 1 1 0 50 50 50 1, Node [ex_b] [] 1 1 50 50 50 50 1]
        1 1 0 0 100 100 0)"
    by (simp del: insert_each.simps every_node.simps)
  from conjunct2[OF T, rule_format, of "Node [ex_a] [] 1 1 0 0 50 50 1" "[ex_c, ex_c]"]
  have l: "insert_each (Node [ex_a] [] 1 1 0 0 50 50 1) [ex_c, ex_c] =
     Some (Node [ex_a, ex_c, ex_c] [] 1 1 0 0 50 50 1)"
    by (simp add: set_items_def del: insert_each.simps)
  from e d l show ?thesis by (simp del: insert_each.simps every_node.simps)
qed

section \<open>A root with \<^verbatim>\<open>maxDepth\<close> 0\<close>

text \<open>
  Claim C4 as stated (an index constructed with \<^verbatim>\<open>maxDepth: 0\<close> never subdivides its
  root) fails: \<^verbatim>\<open>args.maxDepth || 4\<close> replaces the falsy 0 by 4, and the third insertion
  divides the root.
\<close>

theorem C4_counterexample:
  "maxDepth (root (fst (new_QUAD \<lparr>args_x = 0, args_y = 0, args_w = 100, args_h = 100,
      args_maxChildren = None, args_maxDepth = Some 0\<rparr> :: item QUAD \<times> args))) = 4 \<and>
   QUAD_insert (fst (new_QUAD \<lparr>args_x = 0, args_y = 0, args_w = 100, args_h = 100,
      args_maxChildren = None, args_maxDepth = Some 0\<rparr>)) (Items [ex_a, ex_b, ex_c])
     = Some \<lparr>root = ex_root3\<rparr> \<and>
   nodes ex_root3 \<noteq> [] \<and> items ex_root3 \<noteq> [ex_a, ex_b, ex_c]"
  by (simp add: new_QUAD_def QUAD_insert_def ex_root3_def ex_a_def ex_b_def ex_c_def eval_defs)

text \<open>
  Claim C4, amended. A root node whose \<^verbatim>\<open>maxDepth\<close> is 0 never subdivides: after any
  number of insertions, through \<^verbatim>\<open>Node.insert\<close> or through \<^verbatim>\<open>QUAD.insert\<close>, it is a leaf
  whose \<^verbatim>\<open>items\<close> are exactly the inserted items in insertion order. The constructor of
  \<^verbatim>\<open>QUAD\<close> does not build such a root from \<^verbatim>\<open>maxDepth: 0\<close>: the root it builds has
  \<^verbatim>\<open>maxDepth\<close> 4.
\<close>

theorem C4_max_depth_zero:
  "insert_each (new_Node x y w h 0 mc 0) its = Some (Node its [] mc 0 x y w h 0) \<and>
   QUAD_insert \<lparr>root = new_Node x y w h 0 mc 0\<rparr> (Items its)
     = Some \<lparr>root = Node its [] mc 0 x y w h 0\<rparr> \<and>
   maxDepth (root (fst (new_QUAD (a\<lparr>args_maxDepth := Some 0\<rparr>) :: 'i QUAD \<times> args))) = 4"
proof -
  have "insert_each (new_Node x y w h 0 mc 0) its =
      Some (set_items (new_Node x y w h 0 mc 0) (items (new_Node x y w h 0 mc 0) @ its))"
    by (rule insert_at_ceiling) (simp_all add: new_Node_def)
  then have "insert_each (new_Node x y w h 0 mc 0) its = Some (Node its [] mc 0 x y w h 0)"
    by (simp add: new_Node_def set_items_def)
  then show ?thesis by (simp add: QUAD_insert_def new_QUAD_def new_Node_def)
qed

section \<open>No item is lost\<close>

text \<open>
  An insertion adds exactly the inserted item to the items of the tree
  (\<open>all_items_insert\<close>). An item inside the box of a query \<open>q\<close> that \<open>findInsertNode\<close> sends to
  a region makes \<open>findOverlappingNodes\<close> report that region for \<open>q\<close> (\<open>box_overlaps\<close>); the
  argument compares numbers and uses \<open>x \<le> x + w\<close> for \<open>0 \<le> w\<close>, nothing else. So when
  every inserted item lies inside the box of \<open>q\<close>, the query enters every subnode that
  holds an item (\<open>reaches_insert\<close>) and visits every item of the tree (\<open>visit_reaches\<close>).
\<close>

lemma all_items_eq: "all_items n = items n @ concat (map all_items (nodes n))"
  by (cases n) simp

lemma all_items_leaf: "nodes n = [] \<Longrightarrow> all_items n = items n"
  by (simp add: all_items_eq[of n])

lemma all_items_set_items:
  "all_items (set_items n its) = its @ concat (map all_items (nodes n))"
  by (simp add: all_items_eq[of "set_items n its"])

lemma all_items_set_nodes:
  "all_items (set_nodes n ns) = items n @ concat (map all_items ns)"
  by (simp add: all_items_eq[of "set_nodes n ns"])

lemma mset_concat_update:
  "i < length ns \<Longrightarrow> mset (f c) = add_mset a (mset (f (ns ! i))) \<Longrightarrow>
   mset (concat (map f (ns[i := c]))) = add_mset a (mset (concat (map f ns)))"
proof (induction ns arbitrary: i)
  case Nil
  then show ?case by simp
next
  case (Cons b ns)
  then show ?case by (cases i) simp_all
qed

lemma all_items_insert:
  "wf_node n \<longrightarrow> (\<forall>n'. Node_insert n it = Some n' \<longrightarrow>
      mset (all_items n') = add_mset it (mset (all_items n)))"
  "wf_node n \<and> nodes n = [] \<longrightarrow> (\<forall>n'. Node_divide n = Some n' \<longrightarrow>
      mset (all_items n') = mset (items n))"
  "wf_node n \<longrightarrow> (\<forall>n'. insert_each n els = Some n' \<longrightarrow>
      mset (all_items n') = mset (all_items n) + mset els)"
proof (induction n it and n and n els rule: Node_insert_Node_divide_insert_each.induct)
  case (1 this item)
  show ?case
  proof (intro impI allI)
    fix n'
    assume wf: "wf_node this" and ins: "Node_insert this item = Some n'"
    show "mset (all_items n') = add_mset item (mset (all_items this))"
    proof (cases "nodes this = []")
      case True
      let ?t = "set_items this (items this @ [item])"
      show ?thesis
      proof (cases "maxChildren ?t < length (items ?t) \<and> depth ?t < maxDepth ?t")
        case d: True
        with ins True have "Node_divide ?t = Some n'" by (simp add: insert_leaf)
        with "1.IH"(2)[OF _ refl d] True wf show ?thesis by (simp add: all_items_leaf)
      next
        case False
        with ins True have "n' = ?t" by (auto simp: insert_leaf)
        with True show ?thesis by (simp add: all_items_leaf)
      qed
    next
      case False
      let ?i = "findInsertNode this item"
      show ?thesis
      proof (cases "?i = PARENT")
        case True
        with ins False have "n' = set_items this (items this @ [item])"
          by (simp add: insert_internal)
        then show ?thesis by (simp add: all_items_set_items all_items_eq[of this])
      next
        case np: False
        from wf False have len: "length (nodes this) = 4" and
          wch: "\<forall>c \<in> set (nodes this). wf_node c" by (simp_all add: wf_node_iff[of this])
        from np findInsertNode_cases[of this item] len have lt: "?i < length (nodes this)"
          by simp
        with ins False np obtain c where
          c: "Node_insert (nodes this ! ?i) item = Some c" and
          n': "n' = set_nodes this ((nodes this)[?i := c])"
          by (auto simp: insert_internal split: option.splits)
        from wch lt have "wf_node (nodes this ! ?i)" by simp
        with "1.IH"(1)[OF False refl np lt] c
        have "mset (all_items c) = add_mset item (mset (all_items (nodes this ! ?i)))" by simp
        from mset_concat_update[OF lt this] show ?thesis
          by (simp add: n' all_items_set_nodes all_items_eq[of this])
      qed
    qed
  qed
next
  case (2 this)
  show ?case
  proof (intro impI allI, elim conjE)
    fix n'
    assume wf: "wf_node this" and leaf: "nodes this = []" and d: "Node_divide this = Some n'"
    let ?s = "set_items (divide_nodes this) []"
    have wfs: "wf_node ?s" using leaf by (simp add: wf_node_divide_nodes)
    have "all_items ?s = []"
      using leaf by (simp add: all_items_set_items divide_nodes_leaf new_Node_def)
    with "2.IH"[OF refl refl refl] wfs d show "mset (all_items n') = mset (items this)"
      by (simp add: divide_eq)
  qed
next
  case (3 this)
  show ?case by simp
next
  case (4 this el els)
  show ?case
  proof (intro impI allI)
    fix n'
    assume wf: "wf_node this" and e: "insert_each this (el # els) = Some n'"
    from e obtain x where x: "Node_insert this el = Some x" and r: "insert_each x els = Some n'"
      by (auto split: option.splits)
    from "4.IH"(1) wf x have "mset (all_items x) = add_mset el (mset (all_items this))" by simp
    with "4.IH"(2)[OF x] insert_wf(1)[OF wf x] r
    show "mset (all_items n') = mset (all_items this) + mset (el # els)" by simp
  qed
qed

lemma box_overlaps:
  "item_in_box it q \<Longrightarrow> findInsertNode n it \<noteq> PARENT \<Longrightarrow>
   findInsertNode n it \<in> set (findOverlappingNodes n q)"
  by (auto simp: item_in_box_def findInsertNode_def findOverlappingNodes_def TOP_LEFT_def
      TOP_RIGHT_def BOTTOM_LEFT_def BOTTOM_RIGHT_def PARENT_def split: if_splits)

lemma reaches_set_items [simp]: "reaches q (set_items n its) = reaches q n"
  by (simp add: reaches_def findOverlappingNodes_def)

lemma reaches_leaf: "nodes n = [] \<Longrightarrow> reaches q n"
  by (simp add: reaches_def)

lemma all_items_child: "c \<in> set (nodes n) \<Longrightarrow> set (all_items c) \<subseteq> set (all_items n)"
  by (subst all_items_eq[of n]) auto

lemma set_all_items_insert:
  assumes "wf_node n" "Node_insert n it = Some n'"
  shows "set (all_items n') = insert it (set (all_items n))"
proof -
  from all_items_insert(1)[of n it] assms
  have "mset (all_items n') = add_mset it (mset (all_items n))" by simp
  then have "set_mset (mset (all_items n')) = set_mset (add_mset it (mset (all_items n)))"
    by simp
  then show ?thesis by simp
qed

lemma reaches_insert:
  "wf_node n \<and> every_node (reaches q) n \<and> (\<forall>a \<in> set (all_items n). item_in_box a q) \<and>
     item_in_box it q \<longrightarrow>
     (\<forall>n'. Node_insert n it = Some n' \<longrightarrow> every_node (reaches q) n')"
  "wf_node n \<and> nodes n = [] \<and> (\<forall>a \<in> set (items n). item_in_box a q) \<longrightarrow>
     (\<forall>n'. Node_divide n = Some n' \<longrightarrow> every_node (reaches q) n')"
  "wf_node n \<and> every_node (reaches q) n \<and> (\<forall>a \<in> set (all_items n). item_in_box a q) \<and>
     (\<forall>a \<in> set els. item_in_box a q) \<longrightarrow>
     (\<forall>n'. insert_each n els = Some n' \<longrightarrow> every_node (reaches q) n')"
proof (induction n it and n and n els rule: Node_insert_Node_divide_insert_each.induct)
  case (1 this item)
  show ?case
  proof (intro impI allI, elim conjE)
    fix n'
    assume wf: "wf_node this" and ev: "every_node (reaches q) this"
      and inb: "\<forall>a \<in> set (all_items this). item_in_box a q"
      and itb: "item_in_box item q" and ins: "Node_insert this item = Some n'"
    from ev have R: "reaches q this"
      and ch: "\<forall>c \<in> set (nodes this). every_node (reaches q) c"
      by (simp_all add: every_node_iff[of "reaches q" this])
    show "every_node (reaches q) n'"
    proof (cases "nodes this = []")
      case True
      let ?t = "set_items this (items this @ [item])"
      show ?thesis
      proof (cases "maxChildren ?t < length (items ?t) \<and> depth ?t < maxDepth ?t")
        case d: True
        with ins True have dv: "Node_divide ?t = Some n'" by (simp add: insert_leaf)
        have "\<forall>a \<in> set (items ?t). item_in_box a q"
          using inb itb True by (simp add: all_items_leaf)
        with "1.IH"(2)[OF _ refl d] True wf dv show ?thesis by simp
      next
        case False
        with ins True have "n' = ?t" by (auto simp: insert_leaf)
        with True show ?thesis by (simp add: every_node_leaf reaches_leaf)
      qed
    next
      case False
      let ?i = "findInsertNode this item"
      show ?thesis
      proof (cases "?i = PARENT")
        case True
        with ins False have n': "n' = set_items this (items this @ [item])"
          by (simp add: insert_internal)
        with ch R show ?thesis by (simp add: every_node_set_items)
      next
        case np: False
        from wf False have len: "length (nodes this) = 4" and
          wch: "\<forall>c \<in> set (nodes this). wf_node c" by (simp_all add: wf_node_iff[of this])
        from np findInsertNode_cases[of this item] len have lt: "?i < length (nodes this)"
          by simp
        with ins False np obtain c where
          c: "Node_insert (nodes this ! ?i) item = Some c" and
          n': "n' = set_nodes this ((nodes this)[?i := c])"
          by (auto simp: insert_internal split: option.splits)
        from lt have mem: "nodes this ! ?i \<in> set (nodes this)" by simp
        with wch ch have wc: "wf_node (nodes this ! ?i)"
          and ec: "every_node (reaches q) (nodes this ! ?i)" by simp_all
        from all_items_child[OF mem] inb
        have ic: "\<forall>a \<in> set (all_items (nodes this ! ?i)). item_in_box a q" by blast
        from "1.IH"(1)[OF False refl np lt] wc ec ic itb c
        have "every_node (reaches q) c" by simp
        then have kids: "\<forall>c' \<in> set ((nodes this)[?i := c]). every_node (reaches q) c'"
          using ch set_update_subset_insert[of "nodes this" ?i c] by auto
        have ov: "findOverlappingNodes n' q = findOverlappingNodes this q"
          by (simp add: n' findOverlappingNodes_def)
        have "reaches q n'"
          unfolding reaches_def
        proof (intro allI impI)
          fix k assume k: "k < length (nodes n')"
            and ne: "all_items (nodes n' ! k) \<noteq> []"
          show "k \<in> set (findOverlappingNodes n' q)"
          proof (cases "k = ?i")
            case True
            with box_overlaps[OF itb np] ov show ?thesis by simp
          next
            case False
            with k ne have "k < length (nodes this)" "all_items (nodes this ! k) \<noteq> []"
              by (simp_all add: n')
            with R ov show ?thesis by (simp add: reaches_def)
          qed
        qed
        with kids show ?thesis by (simp add: every_node_set_nodes n')
      qed
    qed
  qed
next
  case (2 this)
  show ?case
  proof (intro impI allI, elim conjE)
    fix n'
    assume wf: "wf_node this" and leaf: "nodes this = []"
      and inb: "\<forall>a \<in> set (items this). item_in_box a q"
      and d: "Node_divide this = Some n'"
    let ?s = "set_items (divide_nodes this) []"
    have wfs: "wf_node ?s" using leaf by (simp add: wf_node_divide_nodes)
    have empty: "all_items c = []" if "c \<in> set (nodes ?s)" for c
      using that leaf by (auto simp: divide_nodes_leaf new_Node_def)
    have "reaches q ?s"
      unfolding reaches_def using empty by simp
    moreover have "\<forall>c \<in> set (nodes ?s). every_node (reaches q) c"
      using leaf by (auto simp: divide_nodes_leaf new_Node_def reaches_def)
    ultimately have ev: "every_node (reaches q) ?s"
      by (simp add: every_node_iff[of "reaches q" ?s])
    have "all_items ?s = []"
      using leaf by (simp add: all_items_set_items divide_nodes_leaf new_Node_def)
    with "2.IH"[OF refl refl refl] wfs ev inb d show "every_node (reaches q) n'"
      by (simp add: divide_eq)
  qed
next
  case (3 this)
  show ?case by simp
next
  case (4 this el els)
  show ?case
  proof (intro impI allI, elim conjE)
    fix n'
    assume wf: "wf_node this" and ev: "every_node (reaches q) this"
      and inb: "\<forall>a \<in> set (all_items this). item_in_box a q"
      and elb: "\<forall>a \<in> set (el # els). item_in_box a q"
      and e: "insert_each this (el # els) = Some n'"
    from e obtain x where x: "Node_insert this el = Some x" and r: "insert_each x els = Some n'"
      by (auto split: option.splits)
    from "4.IH"(1) wf ev inb elb x have ex: "every_node (reaches q) x" by simp
    from set_all_items_insert[OF wf x] inb elb
    have ix: "\<forall>a \<in> set (all_items x). item_in_box a q" by simp
    from "4.IH"(2)[OF x] insert_wf(1)[OF wf x] ex ix elb r
    show "every_node (reaches q) n'" by simp
  qed
qed

lemma mset_concat_reached:
  "\<forall>d \<in> set xs. \<not> P d \<longrightarrow> f d = [] \<Longrightarrow>
   mset (concat (map f (filter P xs))) = mset (concat (map f xs))"
  by (induction xs) auto

lemma mset_concat_cong:
  "\<forall>d \<in> set xs. mset (f d) = mset (g d) \<Longrightarrow>
   mset (concat (map f xs)) = mset (concat (map g xs))"
  by (induction xs) auto

lemma visit_reaches:
  "wf_node n \<Longrightarrow> every_node (reaches q) n \<Longrightarrow> mset (visit n q) = mset (all_items n)"
proof (induction n)
  case (Node its ns mc md x y w h d)
  let ?n = "Node its ns mc md x y w h d"
  show ?case
  proof (cases "ns = []")
    case True
    then show ?thesis by (simp add: visit_leaf)
  next
    case False
    with Node.prems(1) have len: "length ns = 4" by simp
    then obtain a b c e where ns: "ns = [a, b, c, e]"
      by (auto simp: numeral_eq_Suc length_Suc_conv)
    from Node.prems(2) have R: "reaches q ?n" by simp
    have ih: "mset (visit m q) = mset (all_items m)" if "m \<in> set ns" for m
      using that Node.IH[of m] Node.prems by simp
    let ?P = "\<lambda>d. d \<in> set (findOverlappingNodes ?n q)"
    let ?g = "\<lambda>d. all_items (ns ! d)"
    have "visit ?n q = its @ concat (map (\<lambda>d. visit (ns ! d) q) (findOverlappingNodes ?n q))"
      using visit_internal[OF Node.prems(1), of q] False by simp
    then have "mset (visit ?n q) = mset its + mset (concat (map (\<lambda>d. visit (ns ! d) q)
        (findOverlappingNodes ?n q)))" by simp
    also have "mset (concat (map (\<lambda>d. visit (ns ! d) q) (findOverlappingNodes ?n q)))
        = mset (concat (map ?g (findOverlappingNodes ?n q)))"
    proof (rule mset_concat_cong, rule ballI)
      fix d assume "d \<in> set (findOverlappingNodes ?n q)"
      then show "mset (visit (ns ! d) q) = mset (all_items (ns ! d))"
        using findOverlappingNodes_lt[of d ?n q] len by (intro ih) simp
    qed
    also have "mset (concat (map ?g (findOverlappingNodes ?n q)))
        = mset (concat (map ?g (filter ?P [TOP_LEFT, BOTTOM_LEFT, TOP_RIGHT, BOTTOM_RIGHT])))"
      using overlapping_filter[of ?n q] by simp
    also have "\<dots> = mset (concat (map ?g [TOP_LEFT, BOTTOM_LEFT, TOP_RIGHT, BOTTOM_RIGHT]))"
    proof (rule mset_concat_reached, intro ballI impI)
      fix d assume "d \<in> set [TOP_LEFT, BOTTOM_LEFT, TOP_RIGHT, BOTTOM_RIGHT]"
        and n: "\<not> d \<in> set (findOverlappingNodes ?n q)"
      then have "d < length ns"
        using len by (auto simp: TOP_LEFT_def TOP_RIGHT_def BOTTOM_LEFT_def BOTTOM_RIGHT_def)
      with R n show "all_items (ns ! d) = []" by (auto simp: reaches_def)
    qed
    also have "\<dots> = mset (concat (map all_items ns))"
      by (simp add: ns TOP_LEFT_def TOP_RIGHT_def BOTTOM_LEFT_def BOTTOM_RIGHT_def)
    finally show ?thesis by simp
  qed
qed

text \<open>
  Claim C2 as stated (for every sequence of insertions that subdivides, a retrieve with
  the full root box visits every inserted item exactly once) fails for items outside
  the root box: on a root of width 0 two items to its left go to the left regions, the
  query \<open>(0, 0, 0, 100)\<close> is not left of the midline (\<open>0 < 0\<close> is false), and the retrieve
  visits nothing.
\<close>

theorem C2_counterexample:
  "insert_each (new_Node 0 0 0 100 0 1 4)
     [\<lparr>item_x = -5, item_y = 10, item_w = 1, item_h = 1\<rparr>,
      \<lparr>item_x = -5, item_y = 60, item_w = 1, item_h = 1\<rparr>] = Some ex_flat_root \<and>
   nodes ex_flat_root \<noteq> [] \<and>
   Node_retrieve ex_flat_root \<lparr>item_x = 0, item_y = 0, item_w = 0, item_h = 100\<rparr> collect []
     = Some (ex_flat_root, []) \<and>
   mset ([] :: item list) \<noteq> mset [\<lparr>item_x = -5, item_y = 10, item_w = 1, item_h = 1\<rparr>,
      \<lparr>item_x = -5, item_y = 60, item_w = 1, item_h = 1\<rparr>]"
  by (simp add: ex_flat_root_def eval_defs)

text \<open>
  Claim C2, amended. On every root, whatever its box, for every sequence of inserted
  items that have non-negative \<^verbatim>\<open>w\<close> and \<^verbatim>\<open>h\<close> and lie inside the root box, subdividing or
  not, the insertions return and a retrieve whose query is the full root box visits a
  multiset of items equal to the multiset of the inserted items: each inserted item
  exactly once.
\<close>

theorem C2_no_loss:
  assumes "\<forall>a \<in> set its. item_in_box a \<lparr>item_x = x, item_y = y, item_w = w, item_h = h\<rparr>"
  shows "\<exists>t acc. insert_each (new_Node x y w h 0 mc md) its = Some t \<and>
           Node_retrieve t \<lparr>item_x = x, item_y = y, item_w = w, item_h = h\<rparr> collect []
             = Some (t, acc) \<and>
           mset acc = mset its"
proof -
  let ?r = "new_Node x y w h 0 mc md :: 'a item_scheme node"
  let ?q = "\<lparr>item_x = x, item_y = y, item_w = w, item_h = h\<rparr>"
  have wf: "wf_node ?r" by simp
  have ev: "every_node (reaches ?q) ?r" by (simp add: new_Node_def reaches_def)
  have em: "all_items ?r = []" by (simp add: new_Node_def)
  from insert_total(3)[of ?r its] wf obtain t where
    t: "insert_each ?r its = Some t" and wft: "wf_node t" by auto
  from all_items_insert(3)[of ?r its] wf t em have "mset (all_items t) = mset its" by simp
  moreover from reaches_insert(3)[of ?r ?q its] wf ev em assms t
  have "every_node (reaches ?q) t" by simp
  with wft have "mset (visit t ?q) = mset (all_items t)" by (intro visit_reaches)
  ultimately have "mset (visit t ?q) = mset its" by simp
  with t wft show ?thesis by (simp add: retrieve_collect)
qed

theorem C2_no_loss_witness:
  "item_in_box \<lparr>item_x = 0, item_y = 10, item_w = 0, item_h = 1\<rparr>
     \<lparr>item_x = 0, item_y = 0, item_w = 0, item_h = 100\<rparr> \<and>
   item_in_box \<lparr>item_x = 0, item_y = 60, item_w = 0, item_h = 1\<rparr>
     \<lparr>item_x = 0, item_y = 0, item_w = 0, item_h = 100\<rparr> \<and>
   insert_each (new_Node 0 0 0 100 0 1 4)
     [\<lparr>item_x = 0, item_y = 10, item_w = 0, item_h = 1\<rparr>,
      \<lparr>item_x = 0, item_y = 60, item_w = 0, item_h = 1\<rparr>] = Some ex_flat_inside \<and>
   nodes ex_flat_inside \<noteq> [] \<and>
   Node_retrieve ex_flat_inside \<lparr>item_x = 0, item_y = 0, item_w = 0, item_h = 100\<rparr> collect []
     = Some (ex_flat_inside,
         [\<lparr>item_x = 0, item_y = 10, item_w = 0, item_h = 1\<rparr>,
          \<lparr>item_x = 0, item_y = 60, item_w = 0, item_h = 1\<rparr>])"
proof -
  have b: "\<forall>a \<in> set [\<lparr>item_x = 0, item_y = 10, item_w = 0, item_h = 1\<rparr>,
      \<lparr>item_x = 0, item_y = 60, item_w = 0, item_h = 1\<rparr>].
      item_in_box a \<lparr>item_x = 0, item_y = 0, item_w = 0, item_h = 100\<rparr>"
    by (simp add: item_in_box_def)
  have e: "insert_each (new_Node 0 0 0 100 0 1 4)
     [\<lparr>item_x = 0, item_y = 10, item_w = 0, item_h = 1\<rparr>,
      \<lparr>item_x = 0, item_y = 60, item_w = 0, item_h = 1\<rparr>] = Some ex_flat_inside"
    by (simp add: ex_flat_inside_def eval_defs)
  have r: "Node_retrieve ex_flat_inside \<lparr>item_x = 0, item_y = 0, item_w = 0, item_h = 100\<rparr>
      collect [] = Some (ex_flat_inside,
         [\<lparr>item_x = 0, item_y = 10, item_w = 0, item_h = 1\<rparr>,
          \<lparr>item_x = 0, item_y = 60, item_w = 0, item_h = 1\<rparr>])"
    by (simp add: ex_flat_inside_def eval_defs)
  from C2_no_loss[OF b, of 1 4] b e r
  show ?thesis by (simp add: ex_flat_inside_def del: insert_each.simps)
qed

section \<open>Straddling items stay where they are\<close>

lemma straddles_parent: "straddles n it \<longleftrightarrow> findInsertNode n it = PARENT"
  by (auto simp: straddles_def findInsertNode_def TOP_LEFT_def TOP_RIGHT_def BOTTOM_LEFT_def
      BOTTOM_RIGHT_def PARENT_def)

lemma insert_internal_items:
  assumes "nodes n \<noteq> []" "Node_insert n a = Some n'"
  shows "items n' = items n @ (if findInsertNode n a = PARENT then [a] else [])"
  using assms by (auto simp: insert_internal split: if_splits option.splits)

lemma insert_each_internal_items:
  "wf_node n \<Longrightarrow> nodes n \<noteq> [] \<Longrightarrow> insert_each n xs = Some n' \<Longrightarrow>
   items n' = items n @ filter (\<lambda>x. findInsertNode n x = PARENT) xs"
proof (induction xs arbitrary: n)
  case Nil
  then show ?case by simp
next
  case (Cons a xs)
  from Cons.prems(3) obtain m where m: "Node_insert n a = Some m"
    and r: "insert_each m xs = Some n'" by (auto split: option.splits)
  note wm = insert_wf[OF Cons.prems(1) m]
  from Cons.IH[OF wm(1) wm(3)[OF Cons.prems(2)] r]
  have "items n' = items m @ filter (\<lambda>x. findInsertNode m x = PARENT) xs" .
  then show ?case
    by (simp add: insert_internal_items[OF Cons.prems(2) m] findInsertNode_frame[OF wm(2)])
qed

lemma count_list_filter: "P x \<Longrightarrow> count_list (filter P xs) x = count_list xs x"
  by (induction xs) auto

lemma parent_count_insert:
  assumes wf: "wf_node n" and par: "findInsertNode n it = PARENT"
    and ins: "Node_insert n j = Some n'"
  shows "count_list (items n') it = count_list (items n) it + (if j = it then 1 else 0)"
proof (cases "nodes n = []")
  case False
  from insert_internal_items[OF False ins] par show ?thesis by auto
next
  case True
  let ?t = "set_items n (items n @ [j])"
  show ?thesis
  proof (cases "maxChildren n < Suc (length (items n)) \<and> depth n < maxDepth n")
    case False
    with ins True have "n' = ?t" by (auto simp: insert_leaf)
    then show ?thesis by simp
  next
    case d: True
    let ?s = "set_items (divide_nodes ?t) []"
    from ins True d have e: "insert_each ?s (items n @ [j]) = Some n'"
      by (simp add: insert_leaf divide_eq)
    have wfs: "wf_node ?s" and int: "nodes ?s \<noteq> []"
      using True by (simp_all add: wf_node_divide_nodes divide_nodes_leaf)
    have fr: "findInsertNode ?s x = findInsertNode n x" for x :: "'a item_scheme"
      by (simp add: findInsertNode_def)
    from insert_each_internal_items[OF wfs int e]
    have "items n' = filter (\<lambda>x. findInsertNode n x = PARENT) (items n @ [j])"
      by (simp only: fr set_items_sel append_Nil)
    then show ?thesis using par count_list_filter[of "\<lambda>x. findInsertNode n x = PARENT" it]
      by simp
  qed
qed

lemma parent_count_each:
  "wf_node n \<Longrightarrow> findInsertNode n it = PARENT \<Longrightarrow> insert_each n js = Some n' \<Longrightarrow>
   count_list (items n') it = count_list (items n) it + count_list js it"
proof (induction js arbitrary: n)
  case Nil
  then show ?case by simp
next
  case (Cons j js)
  from Cons.prems(3) obtain m where m: "Node_insert n j = Some m"
    and r: "insert_each m js = Some n'" by (auto split: option.splits)
  note wm = insert_wf[OF Cons.prems(1) m]
  have "findInsertNode m it = PARENT"
    using findInsertNode_frame[OF wm(2), of it] Cons.prems(2) by simp
  from Cons.IH[OF wm(1) this r] parent_count_insert[OF Cons.prems(1,2) m]
  show ?case by auto
qed

lemma mset_concat_filter:
  "mset (concat (map f (filter P xs))) \<subseteq># mset (concat (map f xs))"
  by (induction xs) (auto intro: subset_mset.add_mono subset_mset.order_trans)

lemma visit_subset: "wf_node n \<Longrightarrow> mset (visit n q) \<subseteq># mset (all_items n)"
proof (induction n)
  case (Node its ns mc md x y w h d)
  let ?n = "Node its ns mc md x y w h d"
  show ?case
  proof (cases "ns = []")
    case True
    then show ?thesis by (simp add: visit_leaf)
  next
    case False
    with Node.prems(1) have "length ns = 4" by simp
    then obtain a b c e where ns: "ns = [a, b, c, e]"
      by (auto simp: numeral_eq_Suc length_Suc_conv)
    have ih: "mset (visit m q) \<subseteq># mset (all_items m)" if "m \<in> set ns" for m
      using that Node.IH[of m] Node.prems by simp
    let ?f = "\<lambda>d. visit (ns ! d) q"
    have "visit ?n q = its @ concat (map ?f (findOverlappingNodes ?n q))"
      using visit_internal[OF Node.prems(1), of q] False by simp
    then have "mset (visit ?n q) = mset its + mset (concat (map ?f
        (filter (\<lambda>d. d \<in> set (findOverlappingNodes ?n q))
          [TOP_LEFT, BOTTOM_LEFT, TOP_RIGHT, BOTTOM_RIGHT])))"
      using overlapping_filter[of ?n q] by simp
    also have "\<dots> \<subseteq># mset its + mset (concat (map ?f
          [TOP_LEFT, BOTTOM_LEFT, TOP_RIGHT, BOTTOM_RIGHT]))"
      by (intro subset_mset.add_left_mono mset_concat_filter)
    also have "\<dots> = mset its + (mset (visit a q) + mset (visit c q) + mset (visit b q)
        + mset (visit e q))"
      by (simp add: ns TOP_LEFT_def TOP_RIGHT_def BOTTOM_LEFT_def BOTTOM_RIGHT_def)
    also have "\<dots> \<subseteq># mset its + (mset (all_items a) + mset (all_items c)
        + mset (all_items b) + mset (all_items e))"
      using ih by (intro subset_mset.add_left_mono subset_mset.add_mono) (simp_all add: ns)
    also have "\<dots> = mset (all_items ?n)" by (simp add: ns)
    finally show ?thesis .
  qed
qed

lemma visit_own_items: "\<exists>r. visit n q = items n @ r"
  by (subst visit.simps) blast

text \<open>
  Claim C6 (straddle retention). Let an item straddle a midline of a well-formed node
  that does not hold it yet, in its own items or below. Then \<open>findInsertNode\<close> classifies
  it \<^verbatim>\<open>PARENT\<close>; \<^verbatim>\<open>insert\<close> puts it into the node's own \<^verbatim>\<open>items\<close>; and after any further
  insertions of other items into the node, with whatever subdivisions they cause, it
  is still in the node's own \<^verbatim>\<open>items\<close>, exactly once, it is stored nowhere else in the
  subtree, and every \<^verbatim>\<open>retrieve\<close> on the node visits it exactly once.
\<close>

theorem C6_straddle_retention:
  assumes "wf_node n" "straddles n it" "it \<notin> set (all_items n)" "it \<notin> set js"
  shows "findInsertNode n it = PARENT \<and>
    (\<exists>n' n''. Node_insert n it = Some n' \<and> it \<in> set (items n') \<and>
       insert_each n' js = Some n'' \<and>
       count_list (items n'') it = 1 \<and> count_list (all_items n'') it = 1 \<and>
       (\<forall>q :: item. \<exists>acc. Node_retrieve n'' q collect [] = Some (n'', acc) \<and>
          count_list acc it = 1))"
proof -
  from assms(2) have par: "findInsertNode n it = PARENT" by (simp add: straddles_parent)
  from insert_total(1)[of n it] assms(1) obtain n' where
    n': "Node_insert n it = Some n'" by auto
  note w' = insert_wf[OF assms(1) n']
  from insert_total(3)[of n' js] w'(1) obtain n'' where
    n'': "insert_each n' js = Some n''" by auto
  note w'' = insert_each_wf[OF w'(1) n'']
  have "set (items n) \<subseteq> set (all_items n)" by (subst all_items_eq) simp
  with assms(3) have c0: "count_list (items n) it = 0" by (auto simp: count_list_0_iff)
  with parent_count_insert[OF assms(1) par n'] have c1: "count_list (items n') it = 1" by simp
  then have mem: "it \<in> set (items n')" using count_list_0_iff[of "items n'" it] by auto
  have par': "findInsertNode n' it = PARENT"
    using findInsertNode_frame[OF w'(2), of it] par by simp
  from parent_count_each[OF w'(1) par' n''] c1 assms(4)
  have c2: "count_list (items n'') it = 1" by (simp add: count_list_0_iff)
  have "mset (all_items n'') = add_mset it (mset (all_items n)) + mset js"
    using all_items_insert(1)[of n it] all_items_insert(3)[of n' js] assms(1) w'(1) n' n''
    by simp
  then have "count (mset (all_items n'')) it = 1"
    using assms(3,4) by (simp add: count_mset count_list_0_iff)
  then have c3: "count_list (all_items n'') it = 1" by (simp add: count_mset)
  have v: "count_list (visit n'' q) it = 1" for q :: item
  proof -
    obtain r where r: "visit n'' q = items n'' @ r" using visit_own_items[of n'' q] by blast
    then have "1 \<le> count_list (visit n'' q) it" using c2 by simp
    moreover have "count (mset (visit n'' q)) it \<le> count (mset (all_items n'')) it"
      using visit_subset[OF w''(1), of q] by (rule mset_subset_eq_count)
    ultimately show ?thesis using c3 by (simp add: count_mset)
  qed
  from par n' mem n'' c2 c3 v w''(1) show ?thesis
    by (auto simp: retrieve_collect)
qed

theorem C6_straddle_retention_witness:
  "wf_node ex_tree \<and> straddles ex_tree ex_mid \<and> ex_mid \<notin> set (all_items ex_tree) \<and>
   ex_mid \<notin> set [ex_a, ex_c] \<and> findInsertNode ex_tree ex_mid = PARENT \<and>
   (\<exists>n' n''. Node_insert ex_tree ex_mid = Some n' \<and> ex_mid \<in> set (items n') \<and>
       insert_each n' [ex_a, ex_c] = Some n'' \<and>
       count_list (items n'') ex_mid = 1 \<and> count_list (all_items n'') ex_mid = 1 \<and>
       (\<forall>q :: item. \<exists>acc. Node_retrieve n'' q collect [] = Some (n'', acc) \<and>
          count_list acc ex_mid = 1))"
proof -
  have 1: "wf_node ex_tree" by (simp add: ex_tree_def)
  have 2: "straddles ex_tree ex_mid" by (simp add: ex_tree_def ex_mid_def straddles_def)
  have 3: "ex_mid \<notin> set (all_items ex_tree)"
    by (simp add: ex_tree_def ex_mid_def ex_bl_def ex_tr_def)
  have 4: "ex_mid \<notin> set [ex_a, ex_c]" by (simp add: ex_mid_def ex_a_def ex_c_def)
  from C6_straddle_retention[OF 1 2 3 4] 1 2 3 4 show ?thesis by blast
qed

end
